theory Spec2Isabelle
  imports Main "HOL-Library.Word"
begin

unbundle bit_operations_syntax

section \<open>The byte buffer and its views\<close>

text \<open>
  \<^verbatim>\<open>MP3Reader\<close> keeps the file as \<^verbatim>\<open>uint8_t* data\<close> with \<^verbatim>\<open>int size\<close>; \<^verbatim>\<open>load\<close> allocates
  exactly \<^verbatim>\<open>size\<close> bytes. The buffer is the list of these bytes and \<^verbatim>\<open>size\<close> is its length
  (an \<^verbatim>\<open>int\<close>, so a loaded buffer has fewer than \<open>2 ^ 31\<close> bytes). A pointer into the
  buffer (\<^verbatim>\<open>ID3v1Tag*\<close>, \<^verbatim>\<open>ID3v2TagHeader*\<close>, \<^verbatim>\<open>ID3v2TagFrameHeader*\<close>, \<^verbatim>\<open>uint8_t*\<close>) is the
  offset from \<^verbatim>\<open>data\<close>; a pointer parameter that the source tests against \<^verbatim>\<open>nullptr\<close> is an
  optional offset. A \<^verbatim>\<open>std::string\<close> is the list of its bytes.

  C++ gives no meaning to a read outside the allocation, to an overflowing \<^verbatim>\<open>int\<close>
  increment or to a read through \<^verbatim>\<open>nullptr\<close>. All three are results of the model: every
  read of the buffer goes through \<open>rd\<close>, \<open>rd_n\<close> or \<open>size_field\<close>.
  Unsigned arithmetic wraps as in the source: \<^verbatim>\<open>uint32_t\<close> is \<^typ>\<open>32 word\<close>, and \<^verbatim>\<open>size_t\<close>
  is \<^typ>\<open>64 word\<close> (LP64).
\<close>

type_synonym byte = "8 word"
type_synonym buffer = "byte list"

datatype error = ReadPastBuffer | SignedOverflow | NullPointer

type_synonym 'a result = "error + 'a"

definition rd :: "buffer \<Rightarrow> nat \<Rightarrow> byte result" where
  "rd buf p = (if p < length buf then Inr (buf ! p) else Inl ReadPastBuffer)"

text \<open>Reading \<open>n\<close> consecutive bytes at \<open>p\<close> (\<^verbatim>\<open>memcpy\<close>, \<^verbatim>\<open>std::string(ptr, n)\<close>).\<close>

definition rd_n :: "buffer \<Rightarrow> nat \<Rightarrow> nat \<Rightarrow> byte list result" where
  "rd_n buf p n = (if p + n \<le> length buf then Inr (take n (drop p buf)) else Inl ReadPastBuffer)"

definition bytes_of :: "string \<Rightarrow> byte list" where
  "bytes_of s = map of_char s"

text \<open>The packed struct sizes: \<open>3 + 30 + 30 + 30 + 4 + 30 + 1\<close>, \<open>3 + 1 + 1 + 1 + 4\<close>, \<open>4 + 4 + 2\<close>.\<close>

definition sizeof_ID3v1Tag :: nat where
  "sizeof_ID3v1Tag = 128"

definition sizeof_ID3v2TagHeader :: nat where
  "sizeof_ID3v2TagHeader = 10"

definition sizeof_ID3v2TagFrameHeader :: nat where
  "sizeof_ID3v2TagFrameHeader = 10"

text \<open>
  \<^verbatim>\<open>MP3_Metadata metadata;\<close> default-initialises the struct: the strings are empty, and the
  members \<^verbatim>\<open>image_data\<close> and \<^verbatim>\<open>image_size\<close>, which have no initialiser, hold an
  indeterminate value until they are assigned.
\<close>

datatype 'a cell = Indeterminate | Assigned 'a

record MP3_Metadata =
  title :: "byte list"
  artist :: "byte list"
  album :: "byte list"
  year :: "byte list"
  track_num :: "byte list"
  genre :: "byte list"
  mime_type :: "byte list"
  description :: "byte list"
  image_data :: "nat cell"
  image_size :: "32 word cell"

definition new_MP3_Metadata :: MP3_Metadata where
  "new_MP3_Metadata =
     \<lparr>title = [], artist = [], album = [], year = [], track_num = [], genre = [],
      mime_type = [], description = [], image_data = Indeterminate, image_size = Indeterminate\<rparr>"

section \<open>Size codec\<close>

text \<open>
  \<^verbatim>\<open>(size[0] << 21) | (size[1] << 14) | (size[2] << 7) | size[3]\<close> on the four bytes of the
  array, converted to \<^verbatim>\<open>uint32_t\<close>. The bytes are not masked.
\<close>

definition size7bitsToNormal :: "byte \<Rightarrow> byte \<Rightarrow> byte \<Rightarrow> byte \<Rightarrow> 32 word" where
  "size7bitsToNormal s0 s1 s2 s3 =
     push_bit 21 (ucast s0) OR push_bit 14 (ucast s1) OR push_bit 7 (ucast s2) OR ucast s3"

definition size8bitsToNormal :: "byte \<Rightarrow> byte \<Rightarrow> byte \<Rightarrow> byte \<Rightarrow> 32 word" where
  "size8bitsToNormal s0 s1 s2 s3 =
     push_bit 24 (ucast s0) OR push_bit 16 (ucast s1) OR push_bit 8 (ucast s2) OR ucast s3"

text \<open>A 4-byte size array read at offset \<open>p\<close> and decoded with \<open>codec\<close>.\<close>

definition size_field ::
  "(byte \<Rightarrow> byte \<Rightarrow> byte \<Rightarrow> byte \<Rightarrow> 32 word) \<Rightarrow> buffer \<Rightarrow> nat \<Rightarrow> 32 word result" where
  "size_field codec buf p =
     (if p + 4 \<le> length buf
      then Inr (codec (buf ! p) (buf ! (p + 1)) (buf ! (p + 2)) (buf ! (p + 3)))
      else Inl ReadPastBuffer)"

text \<open>\<^verbatim>\<open>tagHeader->size\<close> is at offset 6 of the tag header.\<close>

definition getTagSize :: "buffer \<Rightarrow> nat \<Rightarrow> 32 word result" where
  "getTagSize buf tagHeader = size_field size7bitsToNormal buf (tagHeader + 6)"

text \<open>
  \<^verbatim>\<open>tagHeader->version_major\<close> is at offset 3 of the tag header, \<^verbatim>\<open>frameHeader->size\<close> at
  offset 4 of the frame header.
\<close>

definition getFrameSize :: "buffer \<Rightarrow> nat \<Rightarrow> nat \<Rightarrow> 32 word result" where
  "getFrameSize buf tagHeader frameHeader =
     (case rd buf (tagHeader + 3) of
        Inl e \<Rightarrow> Inl e
      | Inr version_major \<Rightarrow>
          if version_major = 4 then size_field size7bitsToNormal buf (frameHeader + 4)
          else size_field size8bitsToNormal buf (frameHeader + 4))"

section \<open>Tag locator\<close>

text \<open>
  \<^verbatim>\<open>getID3v1Tag\<close>: \<^verbatim>\<open>size < sizeof(ID3v1Tag)\<close> compares in \<^verbatim>\<open>size_t\<close>; three bytes are copied
  into a zeroed 4-byte array and compared with \<^verbatim>\<open>strcmp\<close> against \<^verbatim>\<open>"TAG"\<close>. The result is
  the tag pointer or \<^verbatim>\<open>nullptr\<close>.
\<close>

definition getID3v1Tag :: "buffer \<Rightarrow> nat option result" where
  "getID3v1Tag buf =
     (if length buf < sizeof_ID3v1Tag then Inr None
      else
        let tag = length buf - sizeof_ID3v1Tag in
        (case rd_n buf tag 3 of
           Inl e \<Rightarrow> Inl e
         | Inr tag_id \<Rightarrow> if tag_id = bytes_of ''TAG'' then Inr (Some tag) else Inr None))"

text \<open>\<^verbatim>\<open>isID3v2TagHeader\<close>: the three comparisons are joined by \<^verbatim>\<open>&&\<close>, read left to right.\<close>

definition isID3v2TagHeader :: "buffer \<Rightarrow> nat \<Rightarrow> bool result" where
  "isID3v2TagHeader buf p =
     (case rd buf p of
        Inl e \<Rightarrow> Inl e
      | Inr h0 \<Rightarrow>
          if h0 \<noteq> of_char CHR ''I'' then Inr False
          else
            (case rd buf (p + 1) of
               Inl e \<Rightarrow> Inl e
             | Inr h1 \<Rightarrow>
                 if h1 \<noteq> of_char CHR ''D'' then Inr False
                 else
                   (case rd buf (p + 2) of
                      Inl e \<Rightarrow> Inl e
                    | Inr h2 \<Rightarrow> Inr (h2 = of_char CHR ''3''))))"

text \<open>
  The loop of \<^verbatim>\<open>getID3v2Tags\<close>:
  \<^verbatim>\<open>for (int i = 0; i < size - sizeof(ID3v2TagHeader); i++)\<close>. The bound is computed in
  \<^verbatim>\<open>size_t\<close>, so it wraps when \<^verbatim>\<open>size\<close> is less than 10; \<^verbatim>\<open>i\<close> is a non-negative \<^verbatim>\<open>int\<close>,
  converted to \<^verbatim>\<open>size_t\<close> for the comparison, and \<^verbatim>\<open>i++\<close> at \<^verbatim>\<open>INT_MAX\<close> overflows.
\<close>

definition getID3v2Tags_bound :: "buffer \<Rightarrow> nat" where
  "getID3v2Tags_bound buf =
     unat ((word_of_nat (length buf) :: 64 word) - word_of_nat sizeof_ID3v2TagHeader)"

function getID3v2Tags_loop :: "buffer \<Rightarrow> nat \<Rightarrow> nat list \<Rightarrow> nat list result" where
  "getID3v2Tags_loop buf i tags =
     (if i < getID3v2Tags_bound buf then
        (case isID3v2TagHeader buf i of
           Inl e \<Rightarrow> Inl e
         | Inr found \<Rightarrow>
             if i \<ge> 2 ^ 31 - 1 then Inl SignedOverflow
             else getID3v2Tags_loop buf (i + 1) (if found then tags @ [i] else tags))
      else Inr tags)"
  by pat_completeness auto
termination
  by (relation "measure (\<lambda>(buf, i, tags). 2 ^ 31 - i)") auto

declare getID3v2Tags_loop.simps [simp del]

definition getID3v2Tags :: "buffer \<Rightarrow> nat list result" where
  "getID3v2Tags buf = getID3v2Tags_loop buf 0 []"

section \<open>Frame walker\<close>

text \<open>
  The loop of \<^verbatim>\<open>getID3v2TagFrames\<close>. \<^verbatim>\<open>start_pos + tag_size\<close> is a \<^verbatim>\<open>uint32_t\<close> sum; subtracting
  \<^verbatim>\<open>sizeof(ID3v2TagFrameHeader)\<close> and the comparisons with \<^verbatim>\<open>pos\<close> and \<^verbatim>\<open>size\<close> are in
  \<^verbatim>\<open>size_t\<close>. \<^verbatim>\<open>pos += sizeof(ID3v2TagFrameHeader) + frame_size\<close> is stored back into a
  \<^verbatim>\<open>uint32_t\<close>, so it wraps; nothing in the loop forces \<^verbatim>\<open>pos\<close> to grow, and the loop need
  not end: \<open>None\<close> is a run that does not return.
\<close>

partial_function (option) getID3v2TagFrames_loop ::
  "buffer \<Rightarrow> nat \<Rightarrow> 32 word \<Rightarrow> 32 word \<Rightarrow> 32 word \<Rightarrow> nat list \<Rightarrow> (nat list result) option" where
  "getID3v2TagFrames_loop buf tagHeader start_pos tag_size pos frames =
     (if (ucast pos :: 64 word)
           < ucast (start_pos + tag_size) - word_of_nat sizeof_ID3v2TagFrameHeader then
        (if unat pos + sizeof_ID3v2TagFrameHeader > length buf then Some (Inr frames)
         else
           (case rd buf (unat pos) of
              Inl e \<Rightarrow> Some (Inl e)
            | Inr h0 \<Rightarrow>
                if h0 = 0 then Some (Inr frames)
                else
                  (case getFrameSize buf tagHeader (unat pos) of
                     Inl e \<Rightarrow> Some (Inl e)
                   | Inr frame_size \<Rightarrow>
                       getID3v2TagFrames_loop buf tagHeader start_pos tag_size
                         (pos + (word_of_nat sizeof_ID3v2TagFrameHeader + frame_size))
                         (frames @ [unat pos]))))
      else Some (Inr frames))"

definition getID3v2TagFrames :: "buffer \<Rightarrow> nat option \<Rightarrow> (nat list result) option" where
  "getID3v2TagFrames buf tagHeader =
     (case tagHeader of
        None \<Rightarrow> Some (Inr [])
      | Some t \<Rightarrow>
          let start_pos = (word_of_nat (t + sizeof_ID3v2TagHeader) :: 32 word) in
          (case getTagSize buf t of
             Inl e \<Rightarrow> Some (Inl e)
           | Inr tag_size \<Rightarrow> getID3v2TagFrames_loop buf t start_pos tag_size start_pos []))"

definition getFrameData :: "nat option \<Rightarrow> nat option" where
  "getFrameData frameHeader =
     (case frameHeader of
        None \<Rightarrow> None
      | Some f \<Rightarrow> Some (f + sizeof_ID3v2TagFrameHeader))"

section \<open>Payload decoder\<close>

text \<open>
  The UTF-16 branch of \<^verbatim>\<open>getTextFrameData\<close>:
  \<^verbatim>\<open>for (uint32_t i = 0; i < frame_size; i += 2)\<close>, which looks at \<^verbatim>\<open>frame_data[i]\<close> only.
  \<^verbatim>\<open>i += 2\<close> wraps at \<open>2 ^ 32\<close>, so the loop is not known to end.
\<close>

partial_function (option) utf16_loop ::
  "buffer \<Rightarrow> nat \<Rightarrow> 32 word \<Rightarrow> 32 word \<Rightarrow> byte list \<Rightarrow> (byte list result) option" where
  "utf16_loop buf frame_data frame_size i result =
     (if i < frame_size then
        (case rd buf (frame_data + unat i) of
           Inl e \<Rightarrow> Some (Inl e)
         | Inr c \<Rightarrow>
             utf16_loop buf frame_data frame_size (i + 2)
               (if c \<noteq> 0 \<and> c < 128 then result @ [c] else result))
      else Some (Inr result))"

definition getTextFrameData ::
  "buffer \<Rightarrow> nat \<Rightarrow> nat option \<Rightarrow> (byte list result) option" where
  "getTextFrameData buf tagHeader frameHeader =
     (case frameHeader of
        None \<Rightarrow> Some (Inr [])
      | Some f \<Rightarrow>
          (case getFrameData (Some f) of
             None \<Rightarrow> Some (Inl NullPointer)
           | Some frame_data0 \<Rightarrow>
               (case getFrameSize buf tagHeader f of
                  Inl e \<Rightarrow> Some (Inl e)
                | Inr frame_size0 \<Rightarrow>
                    (case rd buf frame_data0 of
                       Inl e \<Rightarrow> Some (Inl e)
                     | Inr encoding \<Rightarrow>
                         let frame_data = frame_data0 + 1;
                             frame_size = frame_size0 - 1
                         in
                           if encoding = 0 then Some (rd_n buf frame_data (unat frame_size))
                           else if encoding = 1 \<or> encoding = 2
                             then utf16_loop buf frame_data frame_size 0 []
                           else if encoding = 3 then Some (rd_n buf frame_data (unat frame_size))
                           else Some (Inr [])))))"

text \<open>
  The loops of \<^verbatim>\<open>getPictureFrameData\<close>.
  \<^verbatim>\<open>while (data_pos < frame_size && frame_data[data_pos] != 0)\<close> occurs three times: for the
  mime type, where the body appends the byte, and for the description in encodings 0 and 3,
  where the body only advances; \<open>scan_until_null\<close> returns the bytes passed over and the
  position reached. \<^verbatim>\<open>data_pos\<close> stays below \<^verbatim>\<open>frame_size\<close> in the body, so \<^verbatim>\<open>data_pos++\<close>
  does not wrap there.
\<close>

function scan_until_null ::
  "buffer \<Rightarrow> nat \<Rightarrow> 32 word \<Rightarrow> 32 word \<Rightarrow> byte list \<Rightarrow> (byte list \<times> 32 word) result" where
  "scan_until_null buf frame_data frame_size data_pos acc =
     (if data_pos < frame_size then
        (case rd buf (frame_data + unat data_pos) of
           Inl e \<Rightarrow> Inl e
         | Inr c \<Rightarrow>
             if c \<noteq> 0 then scan_until_null buf frame_data frame_size (data_pos + 1) (acc @ [c])
             else Inr (acc, data_pos))
      else Inr (acc, data_pos))"
  by pat_completeness auto
termination
proof (relation "measure (\<lambda>(buf, frame_data, frame_size, data_pos, acc).
                   unat frame_size - unat data_pos)")
  fix frame_size data_pos :: "32 word"
  assume "data_pos < frame_size"
  then have "unat (data_pos + 1) = Suc (unat data_pos)" and "unat data_pos < unat frame_size"
    by unat_arith+
  then show "((buf, frame_data, frame_size, data_pos + 1, acc @ [c]),
              (buf, frame_data, frame_size, data_pos, acc))
             \<in> measure (\<lambda>(buf, frame_data, frame_size, data_pos, acc).
                   unat frame_size - unat data_pos)"
    for buf :: buffer and frame_data :: nat and acc :: "byte list" and c :: byte
    by simp
qed simp

declare scan_until_null.simps [simp del]

text \<open>
  The description in encodings 1 and 2:
  \<^verbatim>\<open>while (data_pos < frame_size - 1 && !(frame_data[data_pos] == 0 && frame_data[data_pos+1] == 0))\<close>
  with \<^verbatim>\<open>data_pos += 2\<close>. \<^verbatim>\<open>frame_size - 1\<close> wraps when \<^verbatim>\<open>frame_size\<close> is 0, and
  \<^verbatim>\<open>data_pos += 2\<close> can wrap.
\<close>

partial_function (option) scan_until_null16 ::
  "buffer \<Rightarrow> nat \<Rightarrow> 32 word \<Rightarrow> 32 word \<Rightarrow> (32 word result) option" where
  "scan_until_null16 buf frame_data frame_size data_pos =
     (if data_pos < frame_size - 1 then
        (case rd buf (frame_data + unat data_pos) of
           Inl e \<Rightarrow> Some (Inl e)
         | Inr c0 \<Rightarrow>
             if c0 = 0 then
               (case rd buf (frame_data + unat (data_pos + 1)) of
                  Inl e \<Rightarrow> Some (Inl e)
                | Inr c1 \<Rightarrow>
                    if c1 = 0 then Some (Inr data_pos)
                    else scan_until_null16 buf frame_data frame_size (data_pos + 2))
             else scan_until_null16 buf frame_data frame_size (data_pos + 2))
      else Some (Inr data_pos))"

text \<open>
  \<^verbatim>\<open>getPictureFrameData\<close> writes \<^verbatim>\<open>mime_type\<close> and \<^verbatim>\<open>image_size\<close> through references and returns
  \<^verbatim>\<open>frame_data + data_pos\<close>: the result is the triple of the mime type, the image size and
  the offset of the image pointer. \<open>skip_info\<close> is the \<^verbatim>\<open>// skip info\<close> block, from the
  position after the picture type to the position after the description's terminator.
\<close>

definition skip_info :: "buffer \<Rightarrow> nat \<Rightarrow> 32 word \<Rightarrow> byte \<Rightarrow> 32 word \<Rightarrow> (32 word result) option" where
  "skip_info buf frame_data frame_size encoding data_pos =
     (if encoding = 0 then
        (case scan_until_null buf frame_data frame_size data_pos [] of
           Inl e \<Rightarrow> Some (Inl e)
         | Inr (skipped, data_pos') \<Rightarrow> Some (Inr (data_pos' + 1)))
      else if encoding = 1 \<or> encoding = 2 then
        (case scan_until_null16 buf frame_data frame_size data_pos of
           None \<Rightarrow> None
         | Some (Inl e) \<Rightarrow> Some (Inl e)
         | Some (Inr data_pos') \<Rightarrow> Some (Inr (data_pos' + 2)))
      else if encoding = 3 then
        (case scan_until_null buf frame_data frame_size data_pos [] of
           Inl e \<Rightarrow> Some (Inl e)
         | Inr (skipped, data_pos') \<Rightarrow> Some (Inr (data_pos' + 1)))
      else Some (Inr data_pos))"

definition getPictureFrameData ::
  "buffer \<Rightarrow> nat \<Rightarrow> nat \<Rightarrow> ((byte list \<times> 32 word \<times> nat) result) option" where
  "getPictureFrameData buf tagHeader frameHeader =
     (case getFrameData (Some frameHeader) of
        None \<Rightarrow> Some (Inl NullPointer)
      | Some frame_data \<Rightarrow>
          (case getFrameSize buf tagHeader frameHeader of
             Inl e \<Rightarrow> Some (Inl e)
           | Inr frame_size \<Rightarrow>
               (case rd buf frame_data of
                  Inl e \<Rightarrow> Some (Inl e)
                | Inr encoding \<Rightarrow>
                    (case scan_until_null buf frame_data frame_size 1 [] of
                       Inl e \<Rightarrow> Some (Inl e)
                     | Inr (scanned, data_pos1) \<Rightarrow>
                         let mime = (if scanned = [] then bytes_of ''image/jpeg'' else scanned);
                             data_pos2 = data_pos1 + 1 + 1
                         in
                           (case skip_info buf frame_data frame_size encoding data_pos2 of
                              None \<Rightarrow> None
                            | Some (Inl e) \<Rightarrow> Some (Inl e)
                            | Some (Inr data_pos) \<Rightarrow>
                                Some (Inr (mime, frame_size - data_pos,
                                           frame_data + unat data_pos)))))))"

section \<open>Metadata assembler\<close>

text \<open>
  One pass of the inner loop body of \<^verbatim>\<open>getMetadata\<close>: four bytes of the frame identifier are
  copied into a zeroed 5-byte array and compared with \<^verbatim>\<open>strcmp\<close>, first match first.
\<close>

definition set_text ::
  "(byte list \<Rightarrow> MP3_Metadata) \<Rightarrow> (byte list result) option \<Rightarrow> (MP3_Metadata result) option" where
  "set_text assign decoded = map_option (map_sum id assign) decoded"

definition process_frame ::
  "buffer \<Rightarrow> nat \<Rightarrow> nat \<Rightarrow> MP3_Metadata \<Rightarrow> (MP3_Metadata result) option" where
  "process_frame buf tag frame metadata =
     (case rd_n buf frame 4 of
        Inl e \<Rightarrow> Some (Inl e)
      | Inr frame_id \<Rightarrow>
          if frame_id = bytes_of ''TIT2'' then
            set_text (\<lambda>s. metadata\<lparr>title := s\<rparr>) (getTextFrameData buf tag (Some frame))
          else if frame_id = bytes_of ''TPE1'' then
            set_text (\<lambda>s. metadata\<lparr>artist := s\<rparr>) (getTextFrameData buf tag (Some frame))
          else if frame_id = bytes_of ''TALB'' then
            set_text (\<lambda>s. metadata\<lparr>album := s\<rparr>) (getTextFrameData buf tag (Some frame))
          else if frame_id = bytes_of ''TYER'' \<or> frame_id = bytes_of ''TDRC'' then
            set_text (\<lambda>s. metadata\<lparr>year := s\<rparr>) (getTextFrameData buf tag (Some frame))
          else if frame_id = bytes_of ''TRCK'' then
            set_text (\<lambda>s. metadata\<lparr>track_num := s\<rparr>) (getTextFrameData buf tag (Some frame))
          else if frame_id = bytes_of ''TCON'' then
            set_text (\<lambda>s. metadata\<lparr>genre := s\<rparr>) (getTextFrameData buf tag (Some frame))
          else if frame_id = bytes_of ''APIC'' then
            map_option
              (map_sum id
                (\<lambda>(mime, isize, idata).
                   metadata\<lparr>mime_type := mime, image_size := Assigned isize,
                            image_data := Assigned idata\<rparr>))
              (getPictureFrameData buf tag frame)
          else Some (Inr metadata))"

text \<open>The inner loop \<^verbatim>\<open>for (auto frame: tag_frames)\<close> and the outer loop \<^verbatim>\<open>for (auto tag: tags)\<close>.\<close>

fun process_frames ::
  "buffer \<Rightarrow> nat \<Rightarrow> nat list \<Rightarrow> MP3_Metadata \<Rightarrow> (MP3_Metadata result) option" where
  "process_frames buf tag [] metadata = Some (Inr metadata)"
| "process_frames buf tag (frame # tag_frames) metadata =
     (case process_frame buf tag frame metadata of
        None \<Rightarrow> None
      | Some (Inl e) \<Rightarrow> Some (Inl e)
      | Some (Inr metadata') \<Rightarrow> process_frames buf tag tag_frames metadata')"

fun process_tags ::
  "buffer \<Rightarrow> nat list \<Rightarrow> MP3_Metadata \<Rightarrow> (MP3_Metadata result) option" where
  "process_tags buf [] metadata = Some (Inr metadata)"
| "process_tags buf (tag # tags) metadata =
     (case getID3v2TagFrames buf (Some tag) of
        None \<Rightarrow> None
      | Some (Inl e) \<Rightarrow> Some (Inl e)
      | Some (Inr tag_frames) \<Rightarrow>
          (case process_frames buf tag tag_frames metadata of
             None \<Rightarrow> None
           | Some (Inl e) \<Rightarrow> Some (Inl e)
           | Some (Inr metadata') \<Rightarrow> process_tags buf tags metadata'))"

definition getMetadata :: "buffer \<Rightarrow> (MP3_Metadata result) option" where
  "getMetadata buf =
     (case getID3v2Tags buf of
        Inl e \<Rightarrow> Some (Inl e)
      | Inr tags \<Rightarrow> process_tags buf tags new_MP3_Metadata)"

section \<open>Notions used to state the properties\<close>

text \<open>
  The frame identifier at a frame header, and the order in which \<^verbatim>\<open>getMetadata\<close> meets the
  frames: the tags as located, and under each tag its frames as walked. \<open>run_frames\<close> is the
  assembler's loop body applied along such a sequence.
\<close>

definition frame_id :: "buffer \<Rightarrow> nat \<Rightarrow> byte list" where
  "frame_id buf frame = take 4 (drop frame buf)"

fun scan_order :: "buffer \<Rightarrow> nat list \<Rightarrow> ((nat \<times> nat) list result) option" where
  "scan_order buf [] = Some (Inr [])"
| "scan_order buf (tag # tags) =
     (case getID3v2TagFrames buf (Some tag) of
        None \<Rightarrow> None
      | Some (Inl e) \<Rightarrow> Some (Inl e)
      | Some (Inr tag_frames) \<Rightarrow>
          (case scan_order buf tags of
             None \<Rightarrow> None
           | Some (Inl e) \<Rightarrow> Some (Inl e)
           | Some (Inr rest) \<Rightarrow> Some (Inr (map (Pair tag) tag_frames @ rest))))"

fun run_frames ::
  "buffer \<Rightarrow> (nat \<times> nat) list \<Rightarrow> MP3_Metadata \<Rightarrow> (MP3_Metadata result) option" where
  "run_frames buf [] metadata = Some (Inr metadata)"
| "run_frames buf ((tag, frame) # rest) metadata =
     (case process_frame buf tag frame metadata of
        None \<Rightarrow> None
      | Some (Inl e) \<Rightarrow> Some (Inl e)
      | Some (Inr metadata') \<Rightarrow> run_frames buf rest metadata')"

text \<open>
  The fields of the record that frames write, the field a frame identifier maps to, the
  content of a field in a record, and what the payload decoder yields for a frame of that
  field.
\<close>

datatype record_field = Title | Artist | Album | Year | Track | Genre | Picture

datatype field_content = Text "byte list" | Image "byte list" "32 word cell" "nat cell"

definition frame_field :: "byte list \<Rightarrow> record_field option" where
  "frame_field fid =
     (if fid = bytes_of ''TIT2'' then Some Title
      else if fid = bytes_of ''TPE1'' then Some Artist
      else if fid = bytes_of ''TALB'' then Some Album
      else if fid = bytes_of ''TYER'' \<or> fid = bytes_of ''TDRC'' then Some Year
      else if fid = bytes_of ''TRCK'' then Some Track
      else if fid = bytes_of ''TCON'' then Some Genre
      else if fid = bytes_of ''APIC'' then Some Picture
      else None)"

fun field_of :: "record_field \<Rightarrow> MP3_Metadata \<Rightarrow> field_content" where
  "field_of Title m = Text (title m)"
| "field_of Artist m = Text (artist m)"
| "field_of Album m = Text (album m)"
| "field_of Year m = Text (year m)"
| "field_of Track m = Text (track_num m)"
| "field_of Genre m = Text (genre m)"
| "field_of Picture m = Image (mime_type m) (image_size m) (image_data m)"

definition decoded ::
  "buffer \<Rightarrow> record_field \<Rightarrow> nat \<Rightarrow> nat \<Rightarrow> (field_content result) option" where
  "decoded buf fld tag frame =
     (if fld = Picture then
        map_option
          (map_sum id (\<lambda>(mime, isize, idata). Image mime (Assigned isize) (Assigned idata)))
          (getPictureFrameData buf tag frame)
      else map_option (map_sum id Text) (getTextFrameData buf tag (Some frame)))"

text \<open>
  The frame walk as the specification words it, on unbounded offsets: from \<open>pos\<close>, stop
  when fewer than 10 bytes remain in the buffer, when \<open>pos\<close> has reached \<open>limit\<close> (the tag's
  frame start plus its declared body size minus 10), or when the first identifier byte is
  zero; otherwise yield \<open>pos\<close> and advance by 10 plus the decoded frame size. The tags are
  the offsets below \<open>length - 10\<close> that carry \<^verbatim>\<open>"ID3"\<close>.
\<close>

definition frame_size_at :: "buffer \<Rightarrow> nat \<Rightarrow> nat \<Rightarrow> nat" where
  "frame_size_at buf tag pos =
     (case getFrameSize buf tag pos of Inl e \<Rightarrow> 0 | Inr frame_size \<Rightarrow> unat frame_size)"

function walk_frames :: "buffer \<Rightarrow> nat \<Rightarrow> nat \<Rightarrow> nat \<Rightarrow> nat list" where
  "walk_frames buf tag limit pos =
     (if pos + 10 \<le> length buf \<and> pos < limit \<and> buf ! pos \<noteq> 0
      then pos # walk_frames buf tag limit (pos + 10 + frame_size_at buf tag pos)
      else [])"
  by pat_completeness auto
termination
  by (relation "measure (\<lambda>(buf, tag, limit, pos). length buf - pos)") auto

declare walk_frames.simps [simp del]

definition tag_limit :: "buffer \<Rightarrow> nat \<Rightarrow> nat" where
  "tag_limit buf tag =
     tag + (case getTagSize buf tag of Inl e \<Rightarrow> 0 | Inr tag_size \<Rightarrow> unat tag_size)"

definition spec_frames :: "buffer \<Rightarrow> nat \<Rightarrow> nat list" where
  "spec_frames buf tag = walk_frames buf tag (tag_limit buf tag) (tag + 10)"

definition located :: "buffer \<Rightarrow> nat list" where
  "located buf = filter (\<lambda>i. take 3 (drop i buf) = bytes_of ''ID3'') [0..<length buf - 10]"

text \<open>
  A buffer in which every frame on the walk of every located tag has a non-empty body
  that lies inside the buffer, and whose length is between 10 and \<open>2 ^ 31 - 1\<close>.
\<close>

definition frames_inside :: "buffer \<Rightarrow> nat \<Rightarrow> bool" where
  "frames_inside buf tag =
     list_all (\<lambda>frame. 0 < frame_size_at buf tag frame
                 \<and> frame + 10 + frame_size_at buf tag frame \<le> length buf)
       (spec_frames buf tag)"

definition well_formed :: "buffer \<Rightarrow> bool" where
  "well_formed buf =
     (10 \<le> length buf \<and> length buf < 2 ^ 31 \<and> list_all (frames_inside buf) (located buf))"

text \<open>The bytes at the even positions of a payload: the first byte of each 2-byte unit.\<close>

fun even_bytes :: "byte list \<Rightarrow> byte list" where
  "even_bytes (b0 # b1 # bs) = b0 # even_bytes bs"
| "even_bytes bs = bs"

text \<open>
  The UTF-16 reading of a payload: its 16-bit code units in either byte order, and the
  units in the range 1 to 127 kept as single bytes.
\<close>

fun code_units :: "bool \<Rightarrow> byte list \<Rightarrow> 16 word list" where
  "code_units big_endian (b0 # b1 # bs) =
     (if big_endian then push_bit 8 (ucast b0) OR ucast b1
      else push_bit 8 (ucast b1) OR ucast b0) # code_units big_endian bs"
| "code_units big_endian bs = []"

definition ascii_units :: "16 word list \<Rightarrow> byte list" where
  "ascii_units units = map ucast (filter (\<lambda>u. 1 \<le> u \<and> u \<le> 127) units)"

section \<open>Sample buffers\<close>

text \<open>
  A 22-byte file: an ID3v2.3 tag header declaring a 32-byte body, and one \<^verbatim>\<open>APIC\<close> frame
  header declaring a 5-byte body of which the file holds 2 bytes.
\<close>

definition truncated_frame :: buffer where
  "truncated_frame =
     bytes_of ''ID3'' @ [3, 0, 0, 0, 0, 0, 32] @
     bytes_of ''APIC'' @ [0, 0, 0, 5, 0, 0] @ [0, 0x41]"

text \<open>
  A 24-byte file: an ID3v2.3 tag header declaring a 12-byte body, and one \<^verbatim>\<open>TIT2\<close> frame
  with a 4-byte body (header and body take 14 bytes).
\<close>

definition frame_past_tag :: buffer where
  "frame_past_tag =
     bytes_of ''ID3'' @ [3, 0, 0, 0, 0, 0, 12] @
     bytes_of ''TIT2'' @ [0, 0, 0, 4, 0, 0] @ [0, 0x41, 0x42, 0x43]"

text \<open>
  Two tags, ID3v2.3 and ID3v2.4, each with one Latin-1 \<^verbatim>\<open>TIT2\<close> frame: \<^verbatim>\<open>"A"\<close>, then \<^verbatim>\<open>"B"\<close>.
\<close>

definition two_tags :: buffer where
  "two_tags =
     bytes_of ''ID3'' @ [3, 0, 0, 0, 0, 0, 12] @
     bytes_of ''TIT2'' @ [0, 0, 0, 2, 0, 0] @ [0, 0x41] @
     bytes_of ''ID3'' @ [4, 0, 0, 0, 0, 0, 12] @
     bytes_of ''TIT2'' @ [0, 0, 0, 2, 0, 0] @ [0, 0x42]"

text \<open>
  A \<^verbatim>\<open>TIT2\<close> frame in encoding 1 whose payload is the byte-order mark \<^verbatim>\<open>FF FE\<close> and the
  little-endian code unit \<^verbatim>\<open>U+0441\<close> (bytes \<^verbatim>\<open>41 04\<close>).
\<close>

definition utf16_frame :: buffer where
  "utf16_frame =
     bytes_of ''ID3'' @ [3, 0, 0, 0, 0, 0, 15] @
     bytes_of ''TIT2'' @ [0, 0, 0, 5, 0, 0] @ [1, 0xFF, 0xFE, 0x41, 0x04]"

text \<open>
  Two tags, ID3v2.3 and ID3v2.4, with five frames each. The first tag: \<^verbatim>\<open>TIT2\<close> \<^verbatim>\<open>"A"\<close>,
  \<^verbatim>\<open>TPE1\<close> \<^verbatim>\<open>"a"\<close>, \<^verbatim>\<open>TALB\<close> \<^verbatim>\<open>"b"\<close>, \<^verbatim>\<open>TYER\<close> \<^verbatim>\<open>"1"\<close> and an \<^verbatim>\<open>APIC\<close> frame with an empty mime
  type and the image bytes \<^verbatim>\<open>FF D8\<close>. The second tag: \<^verbatim>\<open>TIT2\<close> \<^verbatim>\<open>"B"\<close>, \<^verbatim>\<open>TRCK\<close> \<^verbatim>\<open>"7"\<close>,
  \<^verbatim>\<open>TCON\<close> \<^verbatim>\<open>"g"\<close>, \<^verbatim>\<open>TDRC\<close> \<^verbatim>\<open>"2"\<close> and an \<^verbatim>\<open>APIC\<close> frame with mime type \<^verbatim>\<open>"p"\<close> and the image
  byte \<^verbatim>\<open>AA\<close>.
\<close>

definition seven_fields :: buffer where
  "seven_fields =
     bytes_of ''ID3'' @ [3, 0, 0, 0, 0, 0, 64] @
     bytes_of ''TIT2'' @ [0, 0, 0, 2, 0, 0] @ [0, 0x41] @
     bytes_of ''TPE1'' @ [0, 0, 0, 2, 0, 0] @ [0, 0x61] @
     bytes_of ''TALB'' @ [0, 0, 0, 2, 0, 0] @ [0, 0x62] @
     bytes_of ''TYER'' @ [0, 0, 0, 2, 0, 0] @ [0, 0x31] @
     bytes_of ''APIC'' @ [0, 0, 0, 6, 0, 0] @ [0, 0, 3, 0, 0xFF, 0xD8] @
     bytes_of ''ID3'' @ [4, 0, 0, 0, 0, 0, 64] @
     bytes_of ''TIT2'' @ [0, 0, 0, 2, 0, 0] @ [0, 0x42] @
     bytes_of ''TRCK'' @ [0, 0, 0, 2, 0, 0] @ [0, 0x37] @
     bytes_of ''TCON'' @ [0, 0, 0, 2, 0, 0] @ [0, 0x67] @
     bytes_of ''TDRC'' @ [0, 0, 0, 2, 0, 0] @ [0, 0x32] @
     bytes_of ''APIC'' @ [0, 0, 0, 6, 0, 0] @ [0, 0x70, 0, 3, 0, 0xAA]"

text \<open>The record expected for \<open>seven_fields\<close>: of each field, the later of its two frames.\<close>

definition seven_fields_metadata :: MP3_Metadata where
  "seven_fields_metadata =
     \<lparr>title = [0x42], artist = [0x61], album = [0x62], year = [0x32],
      track_num = [0x37], genre = [0x67], mime_type = [0x70], description = [],
      image_data = Assigned 147, image_size = Assigned 1\<rparr>"

text \<open>
  A tag header with major version 5 and a frame whose size bytes are \<^verbatim>\<open>00 00 01 00\<close>.
\<close>

definition version5_frame :: buffer where
  "version5_frame =
     bytes_of ''ID3'' @ [5, 0, 0, 0, 0, 0, 12] @
     bytes_of ''TIT2'' @ [0, 0, 1, 0, 0, 0] @ [0, 0x41]"

text \<open>
  An \<^verbatim>\<open>APIC\<close> frame with a 3-byte body: encoding 0 and the two bytes \<^verbatim>\<open>"ab"\<close>, no null byte.
\<close>

definition unterminated_mime :: buffer where
  "unterminated_mime =
     bytes_of ''ID3'' @ [3, 0, 0, 0, 0, 0, 13] @
     bytes_of ''APIC'' @ [0, 0, 0, 3, 0, 0] @ [0, 0x61, 0x62]"

text \<open>
  An \<^verbatim>\<open>APIC\<close> frame with a 6-byte body: encoding 0, an empty mime type, picture type 3, an
  empty description and the two image bytes \<^verbatim>\<open>FF D8\<close>.
\<close>

definition empty_mime :: buffer where
  "empty_mime =
     bytes_of ''ID3'' @ [3, 0, 0, 0, 0, 0, 16] @
     bytes_of ''APIC'' @ [0, 0, 0, 6, 0, 0] @ [0, 0, 3, 0, 0xFF, 0xD8]"

text \<open>
  A 20-byte file: an ID3v2.3 tag header declaring a 32-byte body and one \<^verbatim>\<open>TIT2\<close> frame
  header whose size bytes are \<^verbatim>\<open>FF FF FF F6\<close>.
\<close>

definition looping_frame :: buffer where
  "looping_frame =
     bytes_of ''ID3'' @ [3, 0, 0, 0, 0, 0, 32] @
     bytes_of ''TIT2'' @ [0xFF, 0xFF, 0xFF, 0xF6, 0, 0]"

text \<open>A 128-byte file that starts with \<^verbatim>\<open>"TAG"\<close>, and a 10-byte file of zeros.\<close>

definition only_id3v1 :: buffer where
  "only_id3v1 = bytes_of ''TAG'' @ replicate 125 0"

definition ten_zeros :: buffer where
  "ten_zeros = replicate 10 0"

section \<open>Evaluating the model on the sample buffers\<close>

lemmas sample_simps =
  rd_def rd_n_def bytes_of_def sizeof_ID3v1Tag_def sizeof_ID3v2TagHeader_def
  sizeof_ID3v2TagFrameHeader_def size7bitsToNormal_def size8bitsToNormal_def size_field_def
  getTagSize_def getFrameSize_def isID3v2TagHeader_def getID3v2Tags_bound_def getID3v2Tags_def
  getID3v2TagFrames_def getFrameData_def getTextFrameData_def skip_info_def
  getPictureFrameData_def set_text_def process_frame_def getMetadata_def new_MP3_Metadata_def
  getID3v2Tags_loop.simps getID3v2TagFrames_loop.simps utf16_loop.simps scan_until_null.simps
  scan_until_null16.simps

section \<open>Size codec: properties\<close>

lemma unat_byte_ucast:
  fixes b :: byte
  shows "unat (ucast b :: 32 word) = unat b"
  by (simp add: unsigned_ucast_eq take_bit_nat_eq_self less_trans [OF unsigned_less [of b]])

lemma unat_byte_shift:
  fixes b :: byte
  assumes "n \<le> 24"
  shows "unat (push_bit n (ucast b :: 32 word)) = unat b * 2 ^ n"
proof -
  have "unat b < 2 ^ 8"
    using unsigned_less [of b] by simp
  then have "unat b * 2 ^ n < 2 ^ 8 * 2 ^ n"
    by simp
  also have "(2::nat) ^ 8 * 2 ^ n = 2 ^ (8 + n)"
    by (simp add: power_add)
  also have "\<dots> \<le> 2 ^ 32"
    using assms by (intro power_increasing) simp_all
  finally have small: "push_bit n (unat b) < 2 ^ 32"
    by (simp add: push_bit_eq_mult)
  have "unat (push_bit n (ucast b :: 32 word)) = take_bit 32 (push_bit n (unat b))"
    by (simp only: unsigned_push_bit_eq unat_byte_ucast) simp
  also have "\<dots> = push_bit n (unat b)"
    using small by (rule take_bit_nat_eq_self)
  finally show ?thesis
    by (simp add: push_bit_eq_mult)
qed

lemma nat_or_add:
  fixes x y :: nat
  assumes "y < 2 ^ n"
  shows "x * 2 ^ n OR y = x * 2 ^ n + y"
proof -
  have "push_bit n x AND take_bit n y = 0"
    by (auto simp: bit_eq_iff bit_simps)
  then have "push_bit n x + take_bit n y = push_bit n x OR take_bit n y"
    by (rule disjunctive_add_eq_or)
  then show ?thesis
    using assms by (simp add: push_bit_eq_mult take_bit_nat_eq_self)
qed

lemma size7_int_expr:
  "unat (size7bitsToNormal b0 b1 b2 b3)
     = unat b0 * 2 ^ 21 OR unat b1 * 2 ^ 14 OR unat b2 * 2 ^ 7 OR unat b3"
  by (simp only: size7bitsToNormal_def unsigned_or_eq unat_byte_shift unat_byte_ucast)

lemma size8_int_expr:
  "unat (size8bitsToNormal b0 b1 b2 b3)
     = unat b0 * 2 ^ 24 OR unat b1 * 2 ^ 16 OR unat b2 * 2 ^ 8 OR unat b3"
  by (simp only: size8bitsToNormal_def unsigned_or_eq unat_byte_shift unat_byte_ucast)

lemma size8_big_endian:
  "unat (size8bitsToNormal b0 b1 b2 b3)
     = unat b0 * 2 ^ 24 + unat b1 * 2 ^ 16 + unat b2 * 2 ^ 8 + unat b3"
proof -
  have b: "unat b0 < 2 ^ 8" "unat b1 < 2 ^ 8" "unat b2 < 2 ^ 8" "unat b3 < 2 ^ 8"
    using unsigned_less [of b0] unsigned_less [of b1] unsigned_less [of b2] unsigned_less [of b3]
    by simp_all
  have 1: "unat b2 * 2 ^ 8 OR unat b3 = unat b2 * 2 ^ 8 + unat b3"
    using b by (intro nat_or_add)
  have 2: "unat b1 * 2 ^ 16 OR (unat b2 * 2 ^ 8 + unat b3)
      = unat b1 * 2 ^ 16 + (unat b2 * 2 ^ 8 + unat b3)"
    using b by (intro nat_or_add) simp
  have 3: "unat b0 * 2 ^ 24 OR (unat b1 * 2 ^ 16 + (unat b2 * 2 ^ 8 + unat b3))
      = unat b0 * 2 ^ 24 + (unat b1 * 2 ^ 16 + (unat b2 * 2 ^ 8 + unat b3))"
    using b by (intro nat_or_add) simp
  show ?thesis
    by (simp only: size8_int_expr or.assoc 1 2 3 add.assoc)
qed

lemma size7_synchsafe:
  assumes "b0 \<le> 0x7F" "b1 \<le> 0x7F" "b2 \<le> 0x7F" "b3 \<le> 0x7F"
  shows "unat (size7bitsToNormal b0 b1 b2 b3)
     = unat b0 * 2 ^ 21 + unat b1 * 2 ^ 14 + unat b2 * 2 ^ 7 + unat b3"
proof -
  have b: "unat b0 < 2 ^ 7" "unat b1 < 2 ^ 7" "unat b2 < 2 ^ 7" "unat b3 < 2 ^ 7"
    using assms by (simp_all add: word_le_nat_alt)
  have 1: "unat b2 * 2 ^ 7 OR unat b3 = unat b2 * 2 ^ 7 + unat b3"
    using b by (intro nat_or_add)
  have 2: "unat b1 * 2 ^ 14 OR (unat b2 * 2 ^ 7 + unat b3)
      = unat b1 * 2 ^ 14 + (unat b2 * 2 ^ 7 + unat b3)"
    using b by (intro nat_or_add) simp
  have 3: "unat b0 * 2 ^ 21 OR (unat b1 * 2 ^ 14 + (unat b2 * 2 ^ 7 + unat b3))
      = unat b0 * 2 ^ 21 + (unat b1 * 2 ^ 14 + (unat b2 * 2 ^ 7 + unat b3))"
    using b by (intro nat_or_add) simp
  show ?thesis
    by (simp only: size7_int_expr or.assoc 1 2 3 add.assoc)
qed

text \<open>
  C10, as stated: the value of \<open>synchsafeToInt\<close> depends only on the low 7 bits of each byte.
  It does not: the byte \<^verbatim>\<open>0x80\<close> in the last position contributes 128, although its low 7 bits
  are zero.
\<close>

theorem synchsafe_low_bits_counterexample:
  "size7bitsToNormal 0 0 0 0x80 = 128
   \<and> size7bitsToNormal (0 AND 0x7F) (0 AND 0x7F) (0 AND 0x7F) (0x80 AND 0x7F) = 0"
  by (simp add: size7bitsToNormal_def)

text \<open>
  C10, amended: for all bytes, \<open>synchsafeToInt\<close> is \<^verbatim>\<open>(b0<<21)|(b1<<14)|(b2<<7)|b3\<close> on the
  bytes as they are (no masking, no truncation); when every byte is at most \<^verbatim>\<open>0x7F\<close> each
  byte contributes exactly its 7 bits, \<open>b0 * 2^21 + b1 * 2^14 + b2 * 2^7 + b3\<close>. \<open>plainToInt\<close>
  is the big-endian value \<open>b0 * 2^24 + b1 * 2^16 + b2 * 2^8 + b3\<close>. The three sample values
  hold. Both functions are total.
\<close>

theorem size_codec_values:
  "unat (size7bitsToNormal b0 b1 b2 b3)
     = (unat b0 * 2 ^ 21 OR unat b1 * 2 ^ 14 OR unat b2 * 2 ^ 7 OR unat b3)
   \<and> (b0 \<le> 0x7F \<and> b1 \<le> 0x7F \<and> b2 \<le> 0x7F \<and> b3 \<le> 0x7F \<longrightarrow>
        unat (size7bitsToNormal b0 b1 b2 b3)
          = unat b0 * 2 ^ 21 + unat b1 * 2 ^ 14 + unat b2 * 2 ^ 7 + unat b3)
   \<and> unat (size8bitsToNormal b0 b1 b2 b3)
        = unat b0 * 2 ^ 24 + unat b1 * 2 ^ 16 + unat b2 * 2 ^ 8 + unat b3
   \<and> size7bitsToNormal 0 0 0 0x7F = 127
   \<and> size7bitsToNormal 0 0 1 0 = 128
   \<and> size8bitsToNormal 0 0 0 0xFF = 255"
proof -
  have "size7bitsToNormal 0 0 0 0x7F = 127" "size7bitsToNormal 0 0 1 0 = 128"
    "size8bitsToNormal 0 0 0 0xFF = 255"
    by (simp_all add: size7bitsToNormal_def size8bitsToNormal_def)
  then show ?thesis
    using size7_int_expr [of b0 b1 b2 b3] size8_big_endian [of b0 b1 b2 b3]
      size7_synchsafe [of b0 b1 b2 b3]
    by blast
qed

theorem size_codec_values_witness:
  "(1 :: byte) \<le> 0x7F \<and> (2 :: byte) \<le> 0x7F \<and> (3 :: byte) \<le> 0x7F \<and> (4 :: byte) \<le> 0x7F
   \<and> unat (size7bitsToNormal 1 2 3 4) = 1 * 2 ^ 21 + 2 * 2 ^ 14 + 3 * 2 ^ 7 + 4
   \<and> unat (size8bitsToNormal 1 2 3 4) = 1 * 2 ^ 24 + 2 * 2 ^ 16 + 3 * 2 ^ 8 + 4"
  using size_codec_values [of 1 2 3 4] by simp

section \<open>Frame size selection\<close>

text \<open>
  C5, as stated: for a tag of major version 4 or more the frame size is decoded as synchsafe.
  In a tag of major version 5, the size bytes \<^verbatim>\<open>00 00 01 00\<close> are decoded as 256 (plain), not
  128 (synchsafe).
\<close>

theorem frame_size_version5_counterexample:
  "rd version5_frame 3 = Inr 5
   \<and> getFrameSize version5_frame 0 10 = Inr 256
   \<and> size_field size7bitsToNormal version5_frame (10 + 4) = Inr 128"
  by (simp add: sample_simps version5_frame_def)

text \<open>
  C5, amended: for every frame header inside the buffer, the frame's body size is decoded
  with the 7-bit synchsafe codec when the containing tag's major version equals 4, and with
  the plain 8-bit big-endian codec for every other major version (3 and below, 5 and above).
\<close>

theorem getFrameSize_by_version:
  assumes "tagHeader + 3 < length buf" and "frameHeader + 10 \<le> length buf"
  shows "getFrameSize buf tagHeader frameHeader =
     Inr ((if buf ! (tagHeader + 3) = 4 then size7bitsToNormal else size8bitsToNormal)
            (buf ! (frameHeader + 4)) (buf ! (frameHeader + 5))
            (buf ! (frameHeader + 6)) (buf ! (frameHeader + 7)))"
  using assms by (simp add: getFrameSize_def rd_def size_field_def numeral_eq_Suc add.commute)

theorem getFrameSize_by_version_witness:
  "0 + 3 < length two_tags \<and> 32 + 10 \<le> length two_tags
   \<and> getFrameSize two_tags 0 10 = Inr (size8bitsToNormal 0 0 0 2)
   \<and> getFrameSize two_tags 22 32 = Inr (size7bitsToNormal 0 0 0 2)
   \<and> getFrameSize version5_frame 0 10 = Inr (size8bitsToNormal 0 0 1 0)"
  using getFrameSize_by_version [of 0 two_tags 10] getFrameSize_by_version [of 22 two_tags 32]
    getFrameSize_by_version [of 0 version5_frame 10]
  by (simp add: two_tags_def version5_frame_def bytes_of_def)

section \<open>Tag locator: properties\<close>

text \<open>
  C7: \<open>locateID3v1\<close> returns a view at offset \<open>length - 128\<close> exactly when the buffer has at
  least 128 bytes and the three bytes there are \<^verbatim>\<open>"TAG"\<close>; in every other case (a shorter
  buffer, other bytes) it returns absent. It reads inside the buffer only and has no
  error result.
\<close>

theorem getID3v1Tag_located:
  "getID3v1Tag buf =
     Inr (if 128 \<le> length buf \<and> take 3 (drop (length buf - 128) buf) = bytes_of ''TAG''
          then Some (length buf - 128) else None)"
  by (simp add: getID3v1Tag_def sizeof_ID3v1Tag_def rd_n_def Let_def)

theorem getID3v1Tag_located_witness:
  "getID3v1Tag only_id3v1 = Inr (Some 0) \<and> getID3v1Tag ten_zeros = Inr None"
  using getID3v1Tag_located [of only_id3v1] getID3v1Tag_located [of ten_zeros]
  by (simp add: only_id3v1_def ten_zeros_def bytes_of_def)

lemma isID3v2TagHeader_error:
  "isID3v2TagHeader buf p = Inl e \<Longrightarrow> e = ReadPastBuffer \<and> length buf < p + 3"
  by (auto simp: isID3v2TagHeader_def rd_def split: if_splits)

lemma getID3v2Tags_bound_short:
  assumes "length buf < 10"
  shows "getID3v2Tags_bound buf = 2 ^ 64 - 10 + length buf"
proof -
  from assms consider "length buf = 0" | "length buf = 1" | "length buf = 2" | "length buf = 3"
    | "length buf = 4" | "length buf = 5" | "length buf = 6" | "length buf = 7"
    | "length buf = 8" | "length buf = 9"
    by atomize_elim arith
  then show ?thesis
    by cases (simp_all add: getID3v2Tags_bound_def sizeof_ID3v2TagHeader_def
        unsigned_minus_1_eq_mask mask_eq_exp_minus_1)
qed

lemma getID3v2Tags_loop_short:
  assumes short: "length buf < 10"
  shows "i \<le> length buf \<Longrightarrow> getID3v2Tags_loop buf i tags = Inl ReadPastBuffer"
proof (induction "length buf - i" arbitrary: i tags)
  case 0
  then have "isID3v2TagHeader buf i = Inl ReadPastBuffer"
    by (simp add: isID3v2TagHeader_def rd_def)
  moreover have "i < getID3v2Tags_bound buf"
    using short 0 by (simp add: getID3v2Tags_bound_short)
  ultimately show ?case
    by (subst getID3v2Tags_loop.simps) simp
next
  case (Suc n)
  have bound: "i < getID3v2Tags_bound buf"
    using short Suc.prems by (simp add: getID3v2Tags_bound_short)
  show ?case
  proof (cases "isID3v2TagHeader buf i")
    case (Inl e)
    with bound show ?thesis
      by (subst getID3v2Tags_loop.simps) (simp add: isID3v2TagHeader_error)
  next
    case (Inr found)
    have "getID3v2Tags_loop buf (i + 1) (if found then tags @ [i] else tags) = Inl ReadPastBuffer"
      using Suc.hyps Suc.prems by (intro Suc.hyps(1)) simp_all
    moreover have "\<not> 2 ^ 31 - 1 \<le> i"
      using short Suc.prems by simp
    ultimately show ?thesis
      using bound Inr by (subst getID3v2Tags_loop.simps) simp
  qed
qed

lemma getID3v2Tags_loop_sorted:
  "getID3v2Tags_loop buf i tags = Inr found \<Longrightarrow> sorted_wrt (<) tags \<Longrightarrow> \<forall>t\<in>set tags. t < i
   \<Longrightarrow> sorted_wrt (<) found"
proof (induction buf i tags rule: getID3v2Tags_loop.induct)
  case (1 buf i tags)
  show ?case
  proof (cases "i < getID3v2Tags_bound buf")
    case False
    with "1.prems" show ?thesis
      by (subst (asm) getID3v2Tags_loop.simps) simp
  next
    case True
    from "1.prems"(1) True obtain b where b: "isID3v2TagHeader buf i = Inr b"
      and small: "\<not> 2 ^ 31 - 1 \<le> i"
      and rec: "getID3v2Tags_loop buf (i + 1) (if b then tags @ [i] else tags) = Inr found"
      by (subst (asm) getID3v2Tags_loop.simps) (auto split: sum.splits if_splits)
    have "sorted_wrt (<) (if b then tags @ [i] else tags)"
      using "1.prems" by (auto simp: sorted_wrt_append)
    moreover have "\<forall>t\<in>set (if b then tags @ [i] else tags). t < i + 1"
      using "1.prems" by (auto simp: less_Suc_eq)
    ultimately show ?thesis
      using "1.IH" [OF True b small rec] by simp
  qed
qed

lemma getID3v2Tags_sorted:
  "getID3v2Tags buf = Inr tags \<Longrightarrow> sorted_wrt (<) tags"
  using getID3v2Tags_loop_sorted [of buf 0 "[]" tags] by (simp add: getID3v2Tags_def)

text \<open>
  On a buffer of at least 10 (and fewer than \<open>2 ^ 31\<close>) bytes the scan returns the offsets
  below \<open>length - 10\<close> at which the three bytes are \<^verbatim>\<open>"ID3"\<close>, in ascending order.
\<close>

lemma isID3v2TagHeader_inside:
  assumes "p + 3 \<le> length buf"
  shows "isID3v2TagHeader buf p = Inr (take 3 (drop p buf) = bytes_of ''ID3'')"
proof -
  from assms have "take 3 (drop p buf) = [buf ! p, buf ! (p + 1), buf ! (p + 2)]"
    by (simp add: numeral_3_eq_3 take_Suc_conv_app_nth list_eq_iff_nth_eq nth_append less_Suc_eq
        add.commute)
  with assms show ?thesis
    by (auto simp: isID3v2TagHeader_def rd_def bytes_of_def)
qed

lemma getID3v2Tags_bound_long:
  assumes "10 \<le> length buf" and "length buf < 2 ^ 31"
  shows "getID3v2Tags_bound buf = length buf - 10"
proof -
  have n: "unat (word_of_nat (length buf) :: 64 word) = length buf"
    using assms(2) by (intro of_nat_inverse [OF refl]) simp
  then have "(10 :: 64 word) \<le> word_of_nat (length buf)"
    using assms(1) by (simp add: word_le_nat_alt)
  then have "unat ((word_of_nat (length buf) :: 64 word) - 10) = length buf - 10"
    using n by (simp add: unat_sub)
  then show ?thesis
    by (simp add: getID3v2Tags_bound_def sizeof_ID3v2TagHeader_def)
qed

lemma getID3v2Tags_loop_long:
  assumes long: "10 \<le> length buf" and len: "length buf < 2 ^ 31"
  shows "i \<le> length buf - 10 \<Longrightarrow>
     getID3v2Tags_loop buf i tags =
       Inr (tags @ filter (\<lambda>j. take 3 (drop j buf) = bytes_of ''ID3'') [i..<length buf - 10])"
proof (induction "length buf - 10 - i" arbitrary: i tags)
  case 0
  then have "i = length buf - 10"
    by simp
  then show ?case
    using long len by (subst getID3v2Tags_loop.simps) (simp add: getID3v2Tags_bound_long)
next
  case (Suc n)
  then have lt: "i < length buf - 10"
    by simp
  then have hdr: "isID3v2TagHeader buf i = Inr (take 3 (drop i buf) = bytes_of ''ID3'')"
    by (intro isID3v2TagHeader_inside) simp
  from lt len have small: "\<not> 2 ^ 31 - 1 \<le> i"
    by simp
  have rec: "getID3v2Tags_loop buf (i + 1)
        (if take 3 (drop i buf) = bytes_of ''ID3'' then tags @ [i] else tags) =
      Inr ((if take 3 (drop i buf) = bytes_of ''ID3'' then tags @ [i] else tags) @
           filter (\<lambda>j. take 3 (drop j buf) = bytes_of ''ID3'') [i + 1..<length buf - 10])"
    using Suc.hyps(2) lt by (intro Suc.hyps(1)) simp_all
  have "getID3v2Tags_loop buf i tags = getID3v2Tags_loop buf (i + 1)
        (if take 3 (drop i buf) = bytes_of ''ID3'' then tags @ [i] else tags)"
    using lt hdr small long len
    by (subst getID3v2Tags_loop.simps) (simp add: getID3v2Tags_bound_long)
  with rec lt show ?case
    by (simp add: upt_conv_Cons)
qed

lemma getID3v2Tags_long:
  assumes "10 \<le> length buf" and "length buf < 2 ^ 31"
  shows "getID3v2Tags buf =
     Inr (filter (\<lambda>i. take 3 (drop i buf) = bytes_of ''ID3'') [0..<length buf - 10])"
  using getID3v2Tags_loop_long [OF assms, of 0 "[]"] by (simp add: getID3v2Tags_def)

text \<open>
  C6 on the code: on every buffer shorter than 10 bytes the scan does not return the empty
  sequence. The loop bound \<^verbatim>\<open>size - sizeof(ID3v2TagHeader)\<close> wraps to at least \<open>2 ^ 64 - 10\<close>,
  and the loop runs until it reads past the end of the buffer.
\<close>

theorem getID3v2Tags_short_buffer:
  "length buf < 10 \<Longrightarrow> getID3v2Tags buf = Inl ReadPastBuffer"
  by (simp add: getID3v2Tags_def getID3v2Tags_loop_short)

theorem getID3v2Tags_short_buffer_witness:
  "length ([] :: buffer) < 10 \<and> getID3v2Tags [] = Inl ReadPastBuffer
   \<and> getID3v2Tags [0x49, 0x44, 0x33, 3, 0] = Inl ReadPastBuffer"
  using getID3v2Tags_short_buffer [of "[]"] getID3v2Tags_short_buffer [of "[0x49, 0x44, 0x33, 3, 0]"]
  by simp

section \<open>Payload decoder: properties\<close>

lemma rd_Inr: "rd buf p = Inr c \<longleftrightarrow> p < length buf \<and> c = buf ! p"
  by (auto simp: rd_def)

lemma rd_in: "p < length buf \<Longrightarrow> rd buf p = Inr (buf ! p)"
  by (simp add: rd_def)

lemma take_drop_step:
  assumes "p < length buf" and "0 < n"
  shows "take n (drop p buf) = buf ! p # take (n - 1) (drop (Suc p) buf)"
proof -
  from assms(2) obtain k where "n = Suc k"
    by (cases n) simp_all
  with assms(1) show ?thesis
    by (simp add: Cons_nth_drop_Suc [symmetric])
qed

lemma unat_add2:
  fixes i :: "32 word"
  assumes "unat i + 2 < 2 ^ 32"
  shows "unat (i + 2) = unat i + 2"
  using assms unat_add_lem [of i 2] by simp

lemma scan_until_null_scanned:
  "scan_until_null buf fd fs dp acc = Inr (m, dp') \<Longrightarrow>
     m = acc @ takeWhile (\<lambda>c. c \<noteq> 0) (take (unat fs - unat dp) (drop (fd + unat dp) buf))"
proof (induction buf fd fs dp acc rule: scan_until_null.induct)
  case (1 buf fd fs dp acc)
  show ?case
  proof (cases "dp < fs")
    case False
    then have "unat fs - unat dp = 0"
      by (simp add: word_less_nat_alt)
    with False "1.prems" show ?thesis
      by (subst (asm) scan_until_null.simps) simp
  next
    case True
    from "1.prems" True obtain c where c: "rd buf (fd + unat dp) = Inr c"
      by (subst (asm) scan_until_null.simps) (auto split: sum.splits)
    then have inb: "fd + unat dp < length buf" and cv: "c = buf ! (fd + unat dp)"
      by (simp_all add: rd_Inr)
    from True have pos: "0 < unat fs - unat dp" and suc: "unat (dp + 1) = Suc (unat dp)"
      by unat_arith+
    have step: "take (unat fs - unat dp) (drop (fd + unat dp) buf)
        = c # take (unat fs - unat (dp + 1)) (drop (fd + unat (dp + 1)) buf)"
      using take_drop_step [OF inb pos] by (simp add: cv suc)
    show ?thesis
    proof (cases "c = 0")
      case True
      with \<open>dp < fs\<close> c "1.prems" have "m = acc"
        by (subst (asm) scan_until_null.simps) simp
      with True show ?thesis
        by (simp add: step)
    next
      case False
      with \<open>dp < fs\<close> c "1.prems"
      have "scan_until_null buf fd fs (dp + 1) (acc @ [c]) = Inr (m, dp')"
        by (subst (asm) scan_until_null.simps) simp
      from "1.IH" [OF \<open>dp < fs\<close> c False this] False show ?thesis
        by (simp add: step)
    qed
  qed
qed

lemma scan_until_null_returns:
  "fd + unat fs \<le> length buf \<Longrightarrow> \<exists>m dp'. scan_until_null buf fd fs dp acc = Inr (m, dp')"
proof (induction buf fd fs dp acc rule: scan_until_null.induct)
  case (1 buf fd fs dp acc)
  show ?case
  proof (cases "dp < fs")
    case False
    then show ?thesis
      by (subst scan_until_null.simps) simp
  next
    case True
    then have "fd + unat dp < length buf"
      using "1.prems" by (simp add: word_less_nat_alt)
    then have c: "rd buf (fd + unat dp) = Inr (buf ! (fd + unat dp))"
      by (rule rd_in)
    show ?thesis
    proof (cases "buf ! (fd + unat dp) = 0")
      case True
      with \<open>dp < fs\<close> c show ?thesis
        by (subst scan_until_null.simps) simp
    next
      case False
      from "1.IH" [OF \<open>dp < fs\<close> c False "1.prems"] \<open>dp < fs\<close> c False show ?thesis
        by (subst scan_until_null.simps) simp
    qed
  qed
qed

lemma scan_until_null16_returns:
  assumes inb: "fd + unat fs \<le> length buf" and nz: "fs \<noteq> 0"
  shows "\<exists>dp'. scan_until_null16 buf fd fs dp = Some (Inr dp')"
proof (induction "unat fs - unat dp" arbitrary: dp rule: less_induct)
  case less
  show ?case
  proof (cases "dp < fs - 1")
    case False
    then show ?thesis
      by (subst scan_until_null16.simps) simp
  next
    case True
    from nz have fs1: "unat (fs - 1) = unat fs - 1"
      by (rule unat_minus_one)
    from True fs1 have lt: "unat dp + 1 < unat fs"
      by (simp add: word_less_nat_alt)
    then have u1: "unat (dp + 1) = unat dp + 1" and u2: "unat (dp + 2) = unat dp + 2"
      by unat_arith+
    have r0: "rd buf (fd + unat dp) = Inr (buf ! (fd + unat dp))"
      and r1: "rd buf (fd + unat (dp + 1)) = Inr (buf ! (fd + unat dp + 1))"
      using lt inb by (simp_all add: rd_def u1)
    have "\<exists>dp'. scan_until_null16 buf fd fs (dp + 2) = Some (Inr dp')"
      using lt u2 by (intro less) simp
    with True r0 r1 show ?thesis
      by (subst scan_until_null16.simps) auto
  qed
qed


lemma skip_info_returns:
  assumes "fd + unat fs \<le> length buf" and "fs \<noteq> 0"
  shows "\<exists>dp'. skip_info buf fd fs enc dp = Some (Inr dp')"
proof -
  obtain m d where "scan_until_null buf fd fs dp [] = Inr (m, d)"
    using scan_until_null_returns [OF assms(1)] by blast
  moreover obtain d16 where "scan_until_null16 buf fd fs dp = Some (Inr d16)"
    using scan_until_null16_returns [OF assms] by blast
  ultimately show ?thesis
    by (simp add: skip_info_def)
qed

text \<open>
  C8, amended: for every picture frame whose body is not empty and lies inside the buffer,
  \<open>decodePicture\<close> returns, and its mime type is the bytes of the body from offset 1 up to
  the first null byte or, if there is none, up to the frame boundary; the default
  \<^verbatim>\<open>"image/jpeg"\<close> is returned exactly when these scanned bytes are empty.
\<close>

theorem getPictureFrameData_mime:
  assumes size: "getFrameSize buf tagHeader frameHeader = Inr frame_size"
    and nonempty: "frame_size \<noteq> 0"
    and inside: "frameHeader + 10 + unat frame_size \<le> length buf"
  shows "\<exists>isize idata.
     getPictureFrameData buf tagHeader frameHeader =
       Some (Inr (let scanned = takeWhile (\<lambda>c. c \<noteq> 0)
                                  (take (unat frame_size - 1) (drop (frameHeader + 11) buf))
                  in if scanned = [] then bytes_of ''image/jpeg'' else scanned,
                  isize, idata))"
proof -
  let ?fd = "frameHeader + 10"
  from nonempty have "0 < unat frame_size"
    by (simp add: unat_gt_0)
  with inside have enc: "rd buf ?fd = Inr (buf ! ?fd)"
    by (simp add: rd_def)
  from inside obtain m dp1 where scan: "scan_until_null buf ?fd frame_size 1 [] = Inr (m, dp1)"
    using scan_until_null_returns [of ?fd frame_size buf 1 "[]"] by auto
  have m: "m = takeWhile (\<lambda>c. c \<noteq> 0) (take (unat frame_size - 1) (drop (frameHeader + 11) buf))"
    using scan_until_null_scanned [OF scan] by (simp add: add.commute add.left_commute)
  obtain dp where "skip_info buf ?fd frame_size (buf ! ?fd) (dp1 + 1 + 1) = Some (Inr dp)"
    using skip_info_returns [OF inside nonempty] by blast
  with size enc scan m show ?thesis
    by (simp add: getPictureFrameData_def getFrameData_def sizeof_ID3v2TagFrameHeader_def Let_def)
qed

text \<open>
  C8, as stated: when the mime type has no null terminator before the end of the frame, the
  mime type is treated as empty and \<^verbatim>\<open>"image/jpeg"\<close> is returned. For the 3-byte body
  \<^verbatim>\<open>00 61 62\<close> the returned mime type is \<^verbatim>\<open>"ab"\<close>.
\<close>

theorem mime_unterminated_counterexample:
  "getFrameSize unterminated_mime 0 10 = Inr 3
   \<and> 0 \<notin> set (take (3 - 1) (drop (10 + 11) unterminated_mime))
   \<and> getPictureFrameData unterminated_mime 0 10 = Some (Inr ([0x61, 0x62], 0xFFFFFFFD, 26))
   \<and> [0x61, 0x62] \<noteq> bytes_of ''image/jpeg''"
  by (simp add: sample_simps unterminated_mime_def)

lemma empty_mime_size: "getFrameSize empty_mime 0 10 = Inr 6"
  by (simp add: sample_simps empty_mime_def)

theorem getPictureFrameData_mime_witness:
  "getFrameSize empty_mime 0 10 = Inr 6 \<and> (6 :: 32 word) \<noteq> 0
   \<and> 0 + 10 + unat (6 :: 32 word) \<le> length empty_mime
   \<and> (\<exists>isize idata. getPictureFrameData empty_mime 0 10
         = Some (Inr (bytes_of ''image/jpeg'', isize, idata)))"
  using getPictureFrameData_mime [of empty_mime 0 10 6] empty_mime_size
  by (simp add: empty_mime_def bytes_of_def)

lemma even_bytes_step:
  assumes "p < length buf" and "0 < n"
  shows "even_bytes (take n (drop p buf)) = buf ! p # even_bytes (take (n - 2) (drop (p + 2) buf))"
proof (cases "n = 1")
  case True
  with assms show ?thesis
    by (simp add: take_drop_step)
next
  case False
  with assms have n1: "0 < n - 1" by simp
  show ?thesis
  proof (cases "Suc p < length buf")
    case True
    have "take n (drop p buf) = buf ! p # buf ! Suc p # take (n - 1 - 1) (drop (Suc (Suc p)) buf)"
      using take_drop_step [OF assms] take_drop_step [OF True n1] by simp
    then show ?thesis
      by (simp add: numeral_2_eq_2)
  next
    case False
    then have "drop (Suc p) buf = []" and "drop (p + 2) buf = []"
      by simp_all
    with take_drop_step [OF assms] show ?thesis
      by simp
  qed
qed

lemma utf16_loop_result:
  assumes inside: "fd + unat fs \<le> length buf" and len: "length buf < 2 ^ 31"
  shows "utf16_loop buf fd fs i result =
     Some (Inr (result @ filter (\<lambda>c. c \<noteq> 0 \<and> c < 128)
                           (even_bytes (take (unat fs - unat i) (drop (fd + unat i) buf)))))"
proof (induction "unat fs - unat i" arbitrary: i result rule: less_induct)
  case less
  show ?case
  proof (cases "i < fs")
    case False
    then have "unat fs - unat i = 0"
      by (simp add: word_less_nat_alt)
    with False show ?thesis
      by (subst utf16_loop.simps) simp
  next
    case True
    then have lt: "unat i < unat fs"
      by (simp add: word_less_nat_alt)
    with inside len have "unat i + 2 < 2 ^ 32"
      by simp
    then have u2: "unat (i + 2) = unat i + 2"
      by (rule unat_add2)
    from lt inside have inb: "fd + unat i < length buf"
      by simp
    let ?c = "buf ! (fd + unat i)"
    have step: "even_bytes (take (unat fs - unat i) (drop (fd + unat i) buf))
        = ?c # even_bytes (take (unat fs - unat (i + 2)) (drop (fd + unat (i + 2)) buf))"
      using even_bytes_step [OF inb, of "unat fs - unat i"] lt
      by (simp add: u2 add.assoc)
    have "utf16_loop buf fd fs i result =
        utf16_loop buf fd fs (i + 2) (if ?c \<noteq> 0 \<and> ?c < 128 then result @ [?c] else result)"
      using True inb by (subst utf16_loop.simps) (simp add: rd_def)
    also have "\<dots> = Some (Inr ((if ?c \<noteq> 0 \<and> ?c < 128 then result @ [?c] else result) @
        filter (\<lambda>c. c \<noteq> 0 \<and> c < 128)
          (even_bytes (take (unat fs - unat (i + 2)) (drop (fd + unat (i + 2)) buf)))))"
      using lt u2 by (intro less) simp
    finally show ?thesis
      by (simp add: step)
  qed
qed

text \<open>
  C4, amended: for every text frame with encoding selector 1 or 2 whose body lies inside the
  buffer, \<open>decodeText\<close> returns exactly the bytes at the even offsets of the payload (the
  first byte of each 2-byte unit, and the last byte of a payload of odd length) whose value
  lies in the range 1 to 127, in payload order; the byte at each odd offset is ignored.
\<close>

theorem getTextFrameData_utf16:
  assumes len: "length buf < 2 ^ 31"
    and size: "getFrameSize buf tagHeader frameHeader = Inr frame_size"
    and nonempty: "frame_size \<noteq> 0"
    and inside: "frameHeader + 10 + unat frame_size \<le> length buf"
    and enc: "buf ! (frameHeader + 10) = 1 \<or> buf ! (frameHeader + 10) = 2"
  shows "getTextFrameData buf tagHeader (Some frameHeader) =
     Some (Inr (filter (\<lambda>c. c \<noteq> 0 \<and> c < 128)
                  (even_bytes (take (unat frame_size - 1) (drop (frameHeader + 11) buf)))))"
proof -
  from nonempty have pos: "0 < unat frame_size" and u: "unat (frame_size - 1) = unat frame_size - 1"
    by (simp_all add: unat_gt_0 unat_minus_one)
  with inside have rd_enc: "rd buf (frameHeader + 10) = Inr (buf ! (frameHeader + 10))"
    by (simp add: rd_def)
  have "frameHeader + 10 + 1 + unat (frame_size - 1) \<le> length buf"
    using inside pos u by simp
  from utf16_loop_result [OF this len, of 0 "[]"]
  have "utf16_loop buf (frameHeader + 10 + 1) (frame_size - 1) 0 [] =
      Some (Inr (filter (\<lambda>c. c \<noteq> 0 \<and> c < 128)
                   (even_bytes (take (unat frame_size - 1) (drop (frameHeader + 11) buf)))))"
    by (simp add: u add.commute)
  with size rd_enc enc show ?thesis
    by (auto simp: getTextFrameData_def getFrameData_def sizeof_ID3v2TagFrameHeader_def Let_def)
qed

text \<open>
  C4, as stated: the result is the 16-bit code units of the payload with a value from 1 to
  127. For the payload \<^verbatim>\<open>FF FE 41 04\<close> in encoding 1 no code unit, in either byte order, lies
  in that range, and the result is \<^verbatim>\<open>"A"\<close>.
\<close>

theorem utf16_code_unit_counterexample:
  "rd utf16_frame (10 + 10) = Inr 1
   \<and> getFrameSize utf16_frame 0 10 = Inr 5
   \<and> getTextFrameData utf16_frame 0 (Some 10) = Some (Inr [0x41])
   \<and> code_units False (take (5 - 1) (drop (10 + 11) utf16_frame)) = [0xFEFF, 0x0441]
   \<and> code_units True (take (5 - 1) (drop (10 + 11) utf16_frame)) = [0xFFFE, 0x4104]
   \<and> ascii_units [0xFEFF, 0x0441] = []
   \<and> ascii_units [0xFFFE, 0x4104] = []"
  by (simp add: sample_simps utf16_frame_def ascii_units_def)

lemma utf16_frame_size: "getFrameSize utf16_frame 0 10 = Inr 5"
  by (simp add: sample_simps utf16_frame_def)

theorem getTextFrameData_utf16_witness:
  "length utf16_frame < 2 ^ 31
   \<and> getFrameSize utf16_frame 0 10 = Inr 5
   \<and> (5 :: 32 word) \<noteq> 0
   \<and> 10 + 10 + unat (5 :: 32 word) \<le> length utf16_frame
   \<and> (utf16_frame ! (10 + 10) = 1 \<or> utf16_frame ! (10 + 10) = 2)
   \<and> getTextFrameData utf16_frame 0 (Some 10) = Some (Inr [0x41])"
  using getTextFrameData_utf16 [of utf16_frame 0 10 5] utf16_frame_size
  by (simp add: utf16_frame_def bytes_of_def)

section \<open>Frame walker: properties\<close>

lemma nat_or_less:
  fixes x y :: nat
  assumes "x < 2 ^ n" and "y < 2 ^ n"
  shows "x OR y < 2 ^ n"
proof -
  from assms have "take_bit n (x OR y) = x OR y"
    by (simp add: take_bit_nat_eq_self)
  then show ?thesis
    by (simp only: take_bit_nat_eq_self_iff)
qed

lemma size7_bound: "unat (size7bitsToNormal b0 b1 b2 b3) < 2 ^ 29"
proof -
  have b: "unat b0 < 2 ^ 8" "unat b1 < 2 ^ 8" "unat b2 < 2 ^ 8" "unat b3 < 2 ^ 8"
    using unsigned_less [of b0] unsigned_less [of b1] unsigned_less [of b2] unsigned_less [of b3]
    by simp_all
  have "unat b0 * 2 ^ 21 < 2 ^ 8 * 2 ^ 21" "unat b1 * 2 ^ 14 < 2 ^ 8 * 2 ^ 14"
    "unat b2 * 2 ^ 7 < 2 ^ 8 * 2 ^ 7"
    using b by simp_all
  then have "unat b0 * 2 ^ 21 < 2 ^ 29" "unat b1 * 2 ^ 14 < 2 ^ 29" "unat b2 * 2 ^ 7 < 2 ^ 29"
    by simp_all
  moreover have "unat b3 < 2 ^ 29"
    using b(4) by simp
  ultimately show ?thesis
    unfolding size7_int_expr by (intro nat_or_less)
qed

lemma unat_ucast_32_64: "unat (ucast (w :: 32 word) :: 64 word) = unat w"
  by (simp add: unsigned_ucast_eq take_bit_nat_eq_self less_trans [OF unsigned_less [of w]])

lemma getID3v2TagFrames_loop_headers:
  assumes "getID3v2TagFrames_loop buf t sp ts pos frames = Some r"
  shows "\<forall>fs. r = Inr fs \<longrightarrow>
     (\<forall>f\<in>set frames. f + 10 \<le> length buf \<and> f < unat ((ucast (sp + ts) :: 64 word) - 10)) \<longrightarrow>
     (\<forall>f\<in>set fs. f + 10 \<le> length buf \<and> f < unat ((ucast (sp + ts) :: 64 word) - 10))"
proof (rule getID3v2TagFrames_loop.raw_induct
    [where P = "\<lambda>buf t sp ts pos frames r. \<forall>fs. r = Inr fs \<longrightarrow>
     (\<forall>f\<in>set frames. f + 10 \<le> length buf \<and> f < unat ((ucast (sp + ts) :: 64 word) - 10)) \<longrightarrow>
     (\<forall>f\<in>set fs. f + 10 \<le> length buf \<and> f < unat ((ucast (sp + ts) :: 64 word) - 10))",
     OF _ assms], intro allI impI)
  fix loop :: "buffer \<Rightarrow> nat \<Rightarrow> 32 word \<Rightarrow> 32 word \<Rightarrow> 32 word \<Rightarrow> nat list \<Rightarrow> (nat list result) option"
  fix buf t sp ts pos frames r fs
  assume IH: "\<And>buf t sp ts pos frames r. loop buf t sp ts pos frames = Some r \<Longrightarrow>
      \<forall>fs. r = Inr fs \<longrightarrow>
     (\<forall>f\<in>set frames. f + 10 \<le> length buf \<and> f < unat ((ucast (sp + ts) :: 64 word) - 10)) \<longrightarrow>
     (\<forall>f\<in>set fs. f + 10 \<le> length buf \<and> f < unat ((ucast (sp + ts) :: 64 word) - 10))"
  assume body0: "(if (ucast pos :: 64 word)
           < ucast (sp + ts) - word_of_nat sizeof_ID3v2TagFrameHeader then
        (if unat pos + sizeof_ID3v2TagFrameHeader > length buf then Some (Inr frames)
         else
           (case rd buf (unat pos) of
              Inl e \<Rightarrow> Some (Inl e)
            | Inr h0 \<Rightarrow>
                if h0 = 0 then Some (Inr frames)
                else
                  (case getFrameSize buf t (unat pos) of
                     Inl e \<Rightarrow> Some (Inl e)
                   | Inr frame_size \<Rightarrow>
                       loop buf t sp ts
                         (pos + (word_of_nat sizeof_ID3v2TagFrameHeader + frame_size))
                         (frames @ [unat pos]))))
      else Some (Inr frames)) = Some r"
  assume prems: "r = Inr fs"
    "\<forall>f\<in>set frames. f + 10 \<le> length buf \<and> f < unat ((ucast (sp + ts) :: 64 word) - 10)"
  note body = body0 [unfolded sizeof_ID3v2TagFrameHeader_def]
  show "\<forall>f\<in>set fs. f + 10 \<le> length buf \<and> f < unat ((ucast (sp + ts) :: 64 word) - 10)"
  proof (cases "(ucast pos :: 64 word) < ucast (sp + ts) - word_of_nat 10")
    case False
    with body prems show ?thesis
      by simp
  next
    case cond: True
    show ?thesis
    proof (cases "length buf < unat pos + 10")
      case True
      with cond body prems show ?thesis
        by simp
    next
      case inb: False
      show ?thesis
      proof (cases "rd buf (unat pos)")
        case (Inl e)
        with cond inb body prems show ?thesis
          by simp
      next
        case h0: (Inr h0)
        show ?thesis
        proof (cases "h0 = 0")
          case True
          with cond inb h0 body prems show ?thesis
            by simp
        next
          case nz: False
          show ?thesis
          proof (cases "getFrameSize buf t (unat pos)")
            case (Inl e)
            with cond inb h0 nz body prems show ?thesis
              by simp
          next
            case (Inr fsz)
            with cond inb h0 nz body prems(1)
            have rec: "loop buf t sp ts (pos + (word_of_nat 10 + fsz)) (frames @ [unat pos])
                = Some (Inr fs)"
              by simp
            from cond have "unat pos < unat ((ucast (sp + ts) :: 64 word) - 10)"
              by (simp add: word_less_nat_alt unat_ucast_32_64)
            with inb prems(2)
            have "\<forall>f\<in>set (frames @ [unat pos]).
                f + 10 \<le> length buf \<and> f < unat ((ucast (sp + ts) :: 64 word) - 10)"
              by simp
            with IH [OF rec] show ?thesis
              by blast
          qed
        qed
      qed
    qed
  qed
qed

lemma unat_pos_step:
  fixes pos fsz :: "32 word"
  shows "unat (pos + (word_of_nat sizeof_ID3v2TagFrameHeader + fsz))
     = (unat pos + 10 + unat fsz) mod 2 ^ 32"
proof -
  have "unat (pos + (10 + fsz)) = (unat pos + (10 + unat fsz) mod 2 ^ 32) mod 2 ^ 32"
    by (simp add: unat_word_ariths)
  also have "\<dots> = (unat pos + 10 + unat fsz) mod 2 ^ 32"
    by (simp add: mod_add_right_eq add.assoc)
  finally show ?thesis
    by (simp add: sizeof_ID3v2TagFrameHeader_def)
qed

lemma getID3v2TagFrames_loop_linked:
  assumes "getID3v2TagFrames_loop buf t sp ts pos frames = Some r"
  shows "\<forall>fs. r = Inr fs \<longrightarrow>
     (\<forall>i. Suc i < length frames \<longrightarrow>
        (\<exists>sz. getFrameSize buf t (frames ! i) = Inr sz
           \<and> frames ! Suc i = (frames ! i + 10 + unat sz) mod 2 ^ 32)) \<longrightarrow>
     (frames \<noteq> [] \<longrightarrow>
        (\<exists>sz. getFrameSize buf t (last frames) = Inr sz
           \<and> unat pos = (last frames + 10 + unat sz) mod 2 ^ 32)) \<longrightarrow>
     (\<forall>i. Suc i < length fs \<longrightarrow>
        (\<exists>sz. getFrameSize buf t (fs ! i) = Inr sz
           \<and> fs ! Suc i = (fs ! i + 10 + unat sz) mod 2 ^ 32))"
proof (rule getID3v2TagFrames_loop.raw_induct
    [where P = "\<lambda>buf t sp ts pos frames r. \<forall>fs. r = Inr fs \<longrightarrow>
     (\<forall>i. Suc i < length frames \<longrightarrow>
        (\<exists>sz. getFrameSize buf t (frames ! i) = Inr sz
           \<and> frames ! Suc i = (frames ! i + 10 + unat sz) mod 2 ^ 32)) \<longrightarrow>
     (frames \<noteq> [] \<longrightarrow>
        (\<exists>sz. getFrameSize buf t (last frames) = Inr sz
           \<and> unat pos = (last frames + 10 + unat sz) mod 2 ^ 32)) \<longrightarrow>
     (\<forall>i. Suc i < length fs \<longrightarrow>
        (\<exists>sz. getFrameSize buf t (fs ! i) = Inr sz
           \<and> fs ! Suc i = (fs ! i + 10 + unat sz) mod 2 ^ 32))",
     OF _ assms], intro allI impI)
  fix loop :: "buffer \<Rightarrow> nat \<Rightarrow> 32 word \<Rightarrow> 32 word \<Rightarrow> 32 word \<Rightarrow> nat list \<Rightarrow> (nat list result) option"
  fix buf t sp ts pos frames r fs i
  assume IH: "\<And>buf t sp ts pos frames r. loop buf t sp ts pos frames = Some r \<Longrightarrow>
     \<forall>fs. r = Inr fs \<longrightarrow>
     (\<forall>i. Suc i < length frames \<longrightarrow>
        (\<exists>sz. getFrameSize buf t (frames ! i) = Inr sz
           \<and> frames ! Suc i = (frames ! i + 10 + unat sz) mod 2 ^ 32)) \<longrightarrow>
     (frames \<noteq> [] \<longrightarrow>
        (\<exists>sz. getFrameSize buf t (last frames) = Inr sz
           \<and> unat pos = (last frames + 10 + unat sz) mod 2 ^ 32)) \<longrightarrow>
     (\<forall>i. Suc i < length fs \<longrightarrow>
        (\<exists>sz. getFrameSize buf t (fs ! i) = Inr sz
           \<and> fs ! Suc i = (fs ! i + 10 + unat sz) mod 2 ^ 32))"
  assume body: "(if (ucast pos :: 64 word)
           < ucast (sp + ts) - word_of_nat sizeof_ID3v2TagFrameHeader then
        (if unat pos + sizeof_ID3v2TagFrameHeader > length buf then Some (Inr frames)
         else
           (case rd buf (unat pos) of
              Inl e \<Rightarrow> Some (Inl e)
            | Inr h0 \<Rightarrow>
                if h0 = 0 then Some (Inr frames)
                else
                  (case getFrameSize buf t (unat pos) of
                     Inl e \<Rightarrow> Some (Inl e)
                   | Inr frame_size \<Rightarrow>
                       loop buf t sp ts
                         (pos + (word_of_nat sizeof_ID3v2TagFrameHeader + frame_size))
                         (frames @ [unat pos]))))
      else Some (Inr frames)) = Some r"
  assume res: "r = Inr fs"
  assume chain: "\<forall>i. Suc i < length frames \<longrightarrow>
        (\<exists>sz. getFrameSize buf t (frames ! i) = Inr sz
           \<and> frames ! Suc i = (frames ! i + 10 + unat sz) mod 2 ^ 32)"
  assume link: "frames \<noteq> [] \<longrightarrow>
        (\<exists>sz. getFrameSize buf t (last frames) = Inr sz
           \<and> unat pos = (last frames + 10 + unat sz) mod 2 ^ 32)"
  assume i: "Suc i < length fs"
  show "\<exists>sz. getFrameSize buf t (fs ! i) = Inr sz
           \<and> fs ! Suc i = (fs ! i + 10 + unat sz) mod 2 ^ 32"
  proof (cases "fs = frames")
    case True
    with chain i show ?thesis
      by simp
  next
    case False
    with body res obtain fsz where size: "getFrameSize buf t (unat pos) = Inr fsz"
      and rec: "loop buf t sp ts (pos + (word_of_nat sizeof_ID3v2TagFrameHeader + fsz))
                  (frames @ [unat pos]) = Some (Inr fs)"
      by (auto split: if_splits sum.splits)
    have chain': "\<forall>i. Suc i < length (frames @ [unat pos]) \<longrightarrow>
        (\<exists>sz. getFrameSize buf t ((frames @ [unat pos]) ! i) = Inr sz
           \<and> (frames @ [unat pos]) ! Suc i = ((frames @ [unat pos]) ! i + 10 + unat sz) mod 2 ^ 32)"
    proof (intro allI impI)
      fix j
      assume j: "Suc j < length (frames @ [unat pos])"
      show "\<exists>sz. getFrameSize buf t ((frames @ [unat pos]) ! j) = Inr sz
           \<and> (frames @ [unat pos]) ! Suc j = ((frames @ [unat pos]) ! j + 10 + unat sz) mod 2 ^ 32"
      proof (cases "Suc j < length frames")
        case True
        with chain show ?thesis
          by (simp add: nth_append)
      next
        case False
        with j have "Suc j = length frames"
          by simp
        then have ne: "frames \<noteq> []"
          by auto
        from \<open>Suc j = length frames\<close> have "j = length frames - 1"
          by simp
        with ne \<open>Suc j = length frames\<close> have "(frames @ [unat pos]) ! j = last frames"
          and "(frames @ [unat pos]) ! Suc j = unat pos"
          by (simp_all add: nth_append last_conv_nth)
        with link ne show ?thesis
          by simp
      qed
    qed
    have link': "frames @ [unat pos] \<noteq> [] \<longrightarrow>
        (\<exists>sz. getFrameSize buf t (last (frames @ [unat pos])) = Inr sz
           \<and> unat (pos + (word_of_nat sizeof_ID3v2TagFrameHeader + fsz))
               = (last (frames @ [unat pos]) + 10 + unat sz) mod 2 ^ 32)"
      using size by (simp add: unat_pos_step)
    from IH [OF rec] chain' link' i show ?thesis
      by blast
  qed
qed

lemma tag_bound:
  assumes len: "length buf < 2 ^ 31"
    and tag: "getTagSize buf tagStart = Inr S"
  shows "unat ((ucast (word_of_nat (tagStart + sizeof_ID3v2TagHeader) + S :: 32 word) :: 64 word)
               - word_of_nat sizeof_ID3v2TagFrameHeader)
         = tagStart + unat S"
proof -
  from tag have inside: "tagStart + 10 \<le> length buf"
    by (simp add: getTagSize_def size_field_def split: if_splits)
  from tag have "unat S < 2 ^ 29"
    using size7_bound by (auto simp: getTagSize_def size_field_def split: if_splits)
  define sp :: "32 word" where "sp = word_of_nat (tagStart + sizeof_ID3v2TagHeader)"
  have "tagStart + sizeof_ID3v2TagHeader < 2 ^ LENGTH(32)"
    using inside len by (simp add: sizeof_ID3v2TagHeader_def)
  with sp_def have sp: "unat sp = tagStart + 10"
    by (simp only: of_nat_inverse [OF refl] sizeof_ID3v2TagHeader_def)
  have sum: "unat (sp + S) = tagStart + 10 + unat S"
    using sp inside len \<open>unat S < 2 ^ 29\<close> unat_add_lem [of sp S] by simp
  have "(10 :: 64 word) \<le> ucast (sp + S)"
    using sum by (simp add: word_le_nat_alt unat_ucast_32_64)
  then have "unat ((ucast (sp + S) :: 64 word) - 10) = tagStart + unat S"
    using sum by (simp add: unat_sub unat_ucast_32_64)
  then show ?thesis
    by (simp only: sp_def sizeof_ID3v2TagFrameHeader_def) simp
qed

lemma walk_start:
  assumes len: "length buf < 2 ^ 31"
    and tag: "getTagSize buf tagStart = Inr S"
    and walk: "getID3v2TagFrames buf (Some tagStart) = Some (Inr frames)"
  shows "\<exists>sp. getID3v2TagFrames_loop buf tagStart sp S sp [] = Some (Inr frames)
           \<and> unat ((ucast (sp + S) :: 64 word) - 10) = tagStart + unat S"
proof -
  let ?sp = "word_of_nat (tagStart + sizeof_ID3v2TagHeader) :: 32 word"
  from walk tag
  have "getID3v2TagFrames_loop buf tagStart ?sp S ?sp [] = Some (Inr frames)"
    by (simp only: getID3v2TagFrames_def Let_def option.case sum.case)
  moreover from tag_bound [OF len tag]
  have "unat ((ucast (?sp + S) :: 64 word) - 10) = tagStart + unat S"
    by (simp add: sizeof_ID3v2TagFrameHeader_def)
  ultimately show ?thesis
    by blast
qed

text \<open>
  C2, amended: for every buffer of fewer than \<open>2 ^ 31\<close> bytes, every ID3v2 tag header at
  offset \<open>tagStart\<close> with declared body size \<open>S\<close>, and every frame yielded by the frame
  walker for that tag, the frame's 10-byte header lies inside the buffer and ends before
  offset \<open>tagStart + 10 + S\<close>. A yielded frame that is followed by another yielded frame
  has that frame at its own offset plus 10 plus its decoded body size, taken modulo
  \<open>2 ^ 32\<close> (the walker's position is a \<^verbatim>\<open>uint32_t\<close>); unless this sum reaches \<open>2 ^ 32\<close>, the
  frame's header and body, and 10 bytes more, end before \<open>tagStart + 10 + S\<close>. The bound of
  the claim can fail only for the last yielded frame and for a frame whose size wraps the
  position.
\<close>

theorem walked_frames_inside_tag:
  assumes len: "length buf < 2 ^ 31"
    and tag: "getTagSize buf tagStart = Inr S"
    and walk: "getID3v2TagFrames buf (Some tagStart) = Some (Inr frames)"
  shows "(\<forall>frame\<in>set frames.
            frame + 10 \<le> length buf \<and> frame + 10 < tagStart + 10 + unat S)
     \<and> (\<forall>pre frame following post.
            frames = pre @ frame # following # post \<longrightarrow>
            (\<exists>frame_size.
               getFrameSize buf tagStart frame = Inr frame_size
               \<and> following = (frame + 10 + unat frame_size) mod 2 ^ 32
               \<and> (frame + 10 + unat frame_size < 2 ^ 32 \<longrightarrow>
                    frame + 10 + unat frame_size + 10 < tagStart + 10 + unat S)))"
proof -
  from walk_start [OF assms] obtain sp
    where loop: "getID3v2TagFrames_loop buf tagStart sp S sp [] = Some (Inr frames)"
      and bound: "unat ((ucast (sp + S) :: 64 word) - 10) = tagStart + unat S"
    by blast
  have headers: "frame + 10 \<le> length buf \<and> frame + 10 < tagStart + 10 + unat S"
    if "frame \<in> set frames" for frame
    using getID3v2TagFrames_loop_headers [OF loop] that bound by simp
  have linked: "\<exists>frame_size.
         getFrameSize buf tagStart frame = Inr frame_size
         \<and> following = (frame + 10 + unat frame_size) mod 2 ^ 32
         \<and> (frame + 10 + unat frame_size < 2 ^ 32 \<longrightarrow>
              frame + 10 + unat frame_size + 10 < tagStart + 10 + unat S)"
    if split: "frames = pre @ frame # following # post" for pre frame following post
  proof -
    from split have "Suc (length pre) < length frames"
      and "frames ! length pre = frame" and "frames ! Suc (length pre) = following"
      by (simp_all add: nth_append)
    with getID3v2TagFrames_loop_linked [OF loop] obtain frame_size
      where size: "getFrameSize buf tagStart frame = Inr frame_size"
        and next_pos: "following = (frame + 10 + unat frame_size) mod 2 ^ 32"
      by fastforce
    from split have "following \<in> set frames"
      by simp
    from headers [OF this]
    have following: "following + 10 < tagStart + 10 + unat S"
      by simp
    have "frame + 10 + unat frame_size + 10 < tagStart + 10 + unat S"
      if "frame + 10 + unat frame_size < 2 ^ 32"
    proof -
      from that next_pos have "following = frame + 10 + unat frame_size"
        by simp
      with following show ?thesis
        by simp
    qed
    with size next_pos show ?thesis
      by blast
  qed
  from headers linked show ?thesis
    by blast
qed

text \<open>
  C2, as stated: header offset plus 10 plus body size is at most \<open>tagStart + 10 + S\<close>. A tag
  declaring a 12-byte body whose first frame has a 4-byte body yields that frame, which ends
  at offset 24, past \<open>0 + 10 + 12\<close>.
\<close>

theorem frame_past_tag_counterexample:
  "getID3v2Tags frame_past_tag = Inr [0]
   \<and> getTagSize frame_past_tag 0 = Inr 12
   \<and> getID3v2TagFrames frame_past_tag (Some 0) = Some (Inr [10])
   \<and> getFrameSize frame_past_tag 0 10 = Inr 4
   \<and> \<not> 10 + 10 + unat (4 :: 32 word) \<le> 0 + 10 + unat (12 :: 32 word)"
  by (simp add: sample_simps frame_past_tag_def)

lemma seven_fields_first_walk:
  "getTagSize seven_fields 0 = Inr 64
   \<and> getID3v2TagFrames seven_fields (Some 0) = Some (Inr ([] @ 10 # 22 # [34, 46, 58]))
   \<and> getFrameSize seven_fields 0 10 = Inr 2"
  by (simp add: sample_simps seven_fields_def)

theorem walked_frames_inside_tag_witness:
  "length seven_fields < 2 ^ 31
   \<and> getTagSize seven_fields 0 = Inr 64
   \<and> getID3v2TagFrames seven_fields (Some 0) = Some (Inr ([] @ 10 # 22 # [34, 46, 58]))
   \<and> 58 + 10 \<le> length seven_fields \<and> 58 + 10 < 0 + 10 + unat (64 :: 32 word)
   \<and> getFrameSize seven_fields 0 10 = Inr 2
   \<and> (22 :: nat) = (10 + 10 + unat (2 :: 32 word)) mod 2 ^ 32
   \<and> 10 + 10 + unat (2 :: 32 word) < (2 :: nat) ^ 32
   \<and> 10 + 10 + unat (2 :: 32 word) + 10 < 0 + 10 + unat (64 :: 32 word)"
proof -
  note walk = seven_fields_first_walk
  have len: "length seven_fields < 2 ^ 31"
    by (simp add: seven_fields_def bytes_of_def)
  from walked_frames_inside_tag [OF len, of 0 64 "[] @ 10 # 22 # [34, 46, 58]"] walk
  have headers: "\<forall>frame\<in>set [10, 22, 34, 46, 58 :: nat].
         frame + 10 \<le> length seven_fields \<and> frame + 10 < 0 + 10 + unat (64 :: 32 word)"
    and linked: "\<exists>frame_size. getFrameSize seven_fields 0 10 = Inr frame_size
          \<and> (22 :: nat) = (10 + 10 + unat frame_size) mod 2 ^ 32
          \<and> (10 + 10 + unat frame_size < 2 ^ 32 \<longrightarrow>
               10 + 10 + unat frame_size + 10 < 0 + 10 + unat (64 :: 32 word))"
    by (simp, blast)
  from headers have "58 + 10 \<le> length seven_fields \<and> 58 + 10 < 0 + 10 + unat (64 :: 32 word)"
    by simp
  with linked walk len show ?thesis
    by simp
qed

text \<open>
  When every frame on the specification's walk of a tag ends inside the buffer, the
  walker returns exactly that walk.
\<close>

lemma getFrameSize_inside:
  assumes "tag + 10 \<le> length buf" and "frame + 10 \<le> length buf"
  shows "\<exists>frame_size. getFrameSize buf tag frame = Inr frame_size"
  using assms by (simp add: getFrameSize_def rd_def size_field_def)

lemma getID3v2TagFrames_loop_walk:
  "length buf < 2 ^ 31 \<Longrightarrow> tag + 10 \<le> length buf \<Longrightarrow>
   unat ((ucast (sp + ts) :: 64 word) - word_of_nat sizeof_ID3v2TagFrameHeader) = limit \<Longrightarrow>
   pos \<le> length buf \<Longrightarrow>
   list_all (\<lambda>f. f + 10 + frame_size_at buf tag f \<le> length buf) (walk_frames buf tag limit pos) \<Longrightarrow>
   getID3v2TagFrames_loop buf tag sp ts (word_of_nat pos) acc
     = Some (Inr (acc @ walk_frames buf tag limit pos))"
proof (induction buf tag limit pos arbitrary: acc rule: walk_frames.induct)
  case (1 buf tag limit pos)
  from "1.prems"(1,4) have "pos < 2 ^ LENGTH(32)"
    by simp
  then have up: "unat (word_of_nat pos :: 32 word) = pos"
    by (rule of_nat_inverse [OF refl])
  have guard: "(ucast (word_of_nat pos :: 32 word) :: 64 word)
        < ucast (sp + ts) - word_of_nat sizeof_ID3v2TagFrameHeader \<longleftrightarrow> pos < limit"
    using "1.prems"(3) by (simp add: word_less_nat_alt unat_ucast_32_64 up)
  show ?case
  proof (cases "pos + 10 \<le> length buf \<and> pos < limit \<and> buf ! pos \<noteq> 0")
    case False
    then have "walk_frames buf tag limit pos = []"
      by (subst walk_frames.simps) simp
    moreover from False guard up
    have "getID3v2TagFrames_loop buf tag sp ts (word_of_nat pos) acc = Some (Inr acc)"
      by (subst getID3v2TagFrames_loop.simps)
         (auto simp: rd_def sizeof_ID3v2TagFrameHeader_def)
    ultimately show ?thesis
      by simp
  next
    case True
    then obtain frame_size where size: "getFrameSize buf tag pos = Inr frame_size"
      using getFrameSize_inside [OF "1.prems"(2), of pos] by blast
    then have fsa: "frame_size_at buf tag pos = unat frame_size"
      by (simp add: frame_size_at_def)
    from True have walk: "walk_frames buf tag limit pos
        = pos # walk_frames buf tag limit (pos + 10 + unat frame_size)"
      by (subst walk_frames.simps) (simp add: fsa)
    with "1.prems"(5) fsa have next_in: "pos + 10 + unat frame_size \<le> length buf"
      and rest: "list_all (\<lambda>f. f + 10 + frame_size_at buf tag f \<le> length buf)
                   (walk_frames buf tag limit (pos + 10 + unat frame_size))"
      by simp_all
    have next_pos: "(word_of_nat pos :: 32 word) + (word_of_nat sizeof_ID3v2TagFrameHeader + frame_size)
        = word_of_nat (pos + 10 + unat frame_size)"
      by (simp add: sizeof_ID3v2TagFrameHeader_def)
    have "getID3v2TagFrames_loop buf tag sp ts (word_of_nat (pos + 10 + unat frame_size)) (acc @ [pos])
        = Some (Inr ((acc @ [pos]) @ walk_frames buf tag limit (pos + 10 + unat frame_size)))"
      using "1.IH" [OF True "1.prems"(1,2,3), of "acc @ [pos]"] next_in rest
      by (simp add: fsa)
    moreover from True guard up size
    have "getID3v2TagFrames_loop buf tag sp ts (word_of_nat pos) acc
        = getID3v2TagFrames_loop buf tag sp ts
            (word_of_nat pos + (word_of_nat sizeof_ID3v2TagFrameHeader + frame_size)) (acc @ [pos])"
      by (subst getID3v2TagFrames_loop.simps)
         (simp add: rd_def sizeof_ID3v2TagFrameHeader_def)
    ultimately show ?thesis
      by (simp only: next_pos walk) simp
  qed
qed

lemma getID3v2TagFrames_spec_frames:
  assumes len: "length buf < 2 ^ 31" and tagin: "tag + 10 \<le> length buf"
    and inside: "frames_inside buf tag"
  shows "getID3v2TagFrames buf (Some tag) = Some (Inr (spec_frames buf tag))"
proof -
  from tagin obtain S where S: "getTagSize buf tag = Inr S"
    by (auto simp: getTagSize_def size_field_def)
  then have limit: "tag_limit buf tag = tag + unat S"
    by (simp add: tag_limit_def)
  from inside have "list_all (\<lambda>f. f + 10 + frame_size_at buf tag f \<le> length buf)
      (walk_frames buf tag (tag + unat S) (tag + sizeof_ID3v2TagHeader))"
    by (simp add: frames_inside_def spec_frames_def limit sizeof_ID3v2TagHeader_def list_all_iff)
  from getID3v2TagFrames_loop_walk [OF len tagin tag_bound [OF len S] _ this, of "[]"] tagin
  have "getID3v2TagFrames_loop buf tag (word_of_nat (tag + sizeof_ID3v2TagHeader)) S
      (word_of_nat (tag + sizeof_ID3v2TagHeader)) [] =
      Some (Inr (walk_frames buf tag (tag + unat S) (tag + sizeof_ID3v2TagHeader)))"
    by (simp add: sizeof_ID3v2TagHeader_def)
  with S show ?thesis
    by (simp add: getID3v2TagFrames_def Let_def spec_frames_def limit sizeof_ID3v2TagHeader_def)
qed

section \<open>Metadata assembler: properties\<close>

lemma pos_wraps: "(4294967306 :: 32 word) = 10"
  by simp

lemma looping_frame_never:
  assumes "getID3v2TagFrames_loop buf t sp ts pos frames = Some r"
  shows "\<not> (buf = looping_frame \<and> t = 0 \<and> sp = 10 \<and> ts = 32 \<and> pos = 10)"
proof (rule getID3v2TagFrames_loop.raw_induct
    [where P = "\<lambda>buf t sp ts pos frames r.
       \<not> (buf = looping_frame \<and> t = 0 \<and> sp = 10 \<and> ts = 32 \<and> pos = 10)", OF _ assms])
  fix loop :: "buffer \<Rightarrow> nat \<Rightarrow> 32 word \<Rightarrow> 32 word \<Rightarrow> 32 word \<Rightarrow> nat list \<Rightarrow> (nat list result) option"
  fix buf t sp ts pos frames r
  assume IH: "\<And>buf t sp ts pos frames r. loop buf t sp ts pos frames = Some r \<Longrightarrow>
      \<not> (buf = looping_frame \<and> t = 0 \<and> sp = 10 \<and> ts = 32 \<and> pos = 10)"
  assume body: "(if (ucast pos :: 64 word)
           < ucast (sp + ts) - word_of_nat sizeof_ID3v2TagFrameHeader then
        (if unat pos + sizeof_ID3v2TagFrameHeader > length buf then Some (Inr frames)
         else
           (case rd buf (unat pos) of
              Inl e \<Rightarrow> Some (Inl e)
            | Inr h0 \<Rightarrow>
                if h0 = 0 then Some (Inr frames)
                else
                  (case getFrameSize buf t (unat pos) of
                     Inl e \<Rightarrow> Some (Inl e)
                   | Inr frame_size \<Rightarrow>
                       loop buf t sp ts
                         (pos + (word_of_nat sizeof_ID3v2TagFrameHeader + frame_size))
                         (frames @ [unat pos]))))
      else Some (Inr frames)) = Some r"
  show "\<not> (buf = looping_frame \<and> t = 0 \<and> sp = 10 \<and> ts = 32 \<and> pos = 10)"
  proof
    assume here: "buf = looping_frame \<and> t = 0 \<and> sp = 10 \<and> ts = 32 \<and> pos = 10"
    with body have "loop looping_frame 0 10 32 10 (frames @ [10]) = Some r"
      by (simp add: looping_frame_def bytes_of_def rd_def getFrameSize_def size_field_def
          size8bitsToNormal_def sizeof_ID3v2TagFrameHeader_def pos_wraps)
    from IH [OF this] show False
      by simp
  qed
qed

lemma looping_frame_walk: "getID3v2TagFrames looping_frame (Some 0) = None"
proof -
  have "getID3v2TagFrames_loop looping_frame 0 10 32 10 [] = None"
    using looping_frame_never [of looping_frame 0 10 32 10 "[]"]
    by (cases "getID3v2TagFrames_loop looping_frame 0 10 32 10 []") auto
  moreover have "getTagSize looping_frame 0 = Inr 32"
    by (simp add: looping_frame_def bytes_of_def getTagSize_def size_field_def size7bitsToNormal_def)
  ultimately show ?thesis
    by (simp add: getID3v2TagFrames_def sizeof_ID3v2TagHeader_def)
qed

lemma looping_frame_tags: "getID3v2Tags looping_frame = Inr [0]"
  by (simp add: sample_simps looping_frame_def)

lemma ten_zeros_tags: "getID3v2Tags ten_zeros = Inr []"
  by (simp add: sample_simps ten_zeros_def)

text \<open>
  C9 on the code: \<open>extractMetadata\<close> does not return a record with an absent picture for
  every buffer. On a 10-byte buffer of zeros (no tag) the record's \<^verbatim>\<open>image_data\<close> and
  \<^verbatim>\<open>image_size\<close> are the uninitialised members of \<^verbatim>\<open>MP3_Metadata\<close>, not a null pointer
  and zero. On a tag whose frame declares the size \<^verbatim>\<open>FF FF FF F6\<close> the walker's \<^verbatim>\<open>pos\<close>
  comes back to the same frame and the call does not return. On the empty buffer the tag
  scan reads past the buffer.
\<close>

theorem getMetadata_failures:
  "getMetadata ten_zeros =
     Some (Inr \<lparr>title = [], artist = [], album = [], year = [], track_num = [], genre = [],
                mime_type = [], description = [],
                image_data = Indeterminate, image_size = Indeterminate\<rparr>)
   \<and> getMetadata looping_frame = None
   \<and> getMetadata [] = Some (Inl ReadPastBuffer)"
proof -
  have "getID3v2Tags [] = Inl ReadPastBuffer"
    by (simp add: sample_simps)
  then show ?thesis
    using looping_frame_walk looping_frame_tags ten_zeros_tags
    by (simp add: getMetadata_def new_MP3_Metadata_def)
qed

text \<open>
  C1 on the code: a frame header that ends at offset 20 of a 22-byte buffer and declares a
  5-byte body is yielded by the walker, and both payload decoders then read at offsets
  that were never compared with the buffer length, past the last byte; \<open>extractMetadata\<close>
  does not stop at the frame but runs into the same read.
\<close>

theorem decoders_read_past_buffer:
  "length truncated_frame = 22
   \<and> getID3v2Tags truncated_frame = Inr [0]
   \<and> getID3v2TagFrames truncated_frame (Some 0) = Some (Inr [10])
   \<and> getFrameSize truncated_frame 0 10 = Inr 5
   \<and> getPictureFrameData truncated_frame 0 10 = Some (Inl ReadPastBuffer)
   \<and> getTextFrameData truncated_frame 0 (Some 10) = Some (Inl ReadPastBuffer)
   \<and> getMetadata truncated_frame = Some (Inl ReadPastBuffer)"
  by (simp add: sample_simps truncated_frame_def)

lemma field_of_other:
  "fld \<noteq> Title \<Longrightarrow> field_of fld (m\<lparr>title := s\<rparr>) = field_of fld m"
  "fld \<noteq> Artist \<Longrightarrow> field_of fld (m\<lparr>artist := s\<rparr>) = field_of fld m"
  "fld \<noteq> Album \<Longrightarrow> field_of fld (m\<lparr>album := s\<rparr>) = field_of fld m"
  "fld \<noteq> Year \<Longrightarrow> field_of fld (m\<lparr>year := s\<rparr>) = field_of fld m"
  "fld \<noteq> Track \<Longrightarrow> field_of fld (m\<lparr>track_num := s\<rparr>) = field_of fld m"
  "fld \<noteq> Genre \<Longrightarrow> field_of fld (m\<lparr>genre := s\<rparr>) = field_of fld m"
  "fld \<noteq> Picture \<Longrightarrow>
     field_of fld (m\<lparr>mime_type := a, image_size := b, image_data := c\<rparr>) = field_of fld m"
  by (cases fld; simp)+

lemma set_text_Inr:
  assumes "set_text assign decoded_text = Some (Inr m)"
  shows "\<exists>s. decoded_text = Some (Inr s) \<and> m = assign s"
proof (cases decoded_text)
  case None
  with assms show ?thesis
    by (simp add: set_text_def)
next
  case (Some x)
  with assms show ?thesis
    by (cases x) (simp_all add: set_text_def)
qed

lemma decoded_text:
  "fld \<noteq> Picture \<Longrightarrow> getTextFrameData buf t (Some f) = Some (Inr s) \<Longrightarrow>
     decoded buf fld t f = Some (Inr (Text s))"
  by (simp add: decoded_def)

lemma process_frame_result:
  assumes "process_frame buf t f md = Some (Inr md')"
  shows "frame_field (frame_id buf f) = None \<and> md' = md
     \<or> (\<exists>fld. frame_field (frame_id buf f) = Some fld
           \<and> decoded buf fld t f = Some (Inr (field_of fld md'))
           \<and> (\<forall>fld'. fld' \<noteq> fld \<longrightarrow> field_of fld' md' = field_of fld' md))"
proof -
  from assms have rd: "rd_n buf f 4 = Inr (frame_id buf f)"
    by (auto simp: process_frame_def rd_n_def frame_id_def split: if_splits)
  note pf = assms [unfolded process_frame_def rd sum.case]
  consider (tit2) "frame_id buf f = bytes_of ''TIT2''"
    | (tpe1) "frame_id buf f = bytes_of ''TPE1''"
    | (talb) "frame_id buf f = bytes_of ''TALB''"
    | (year) "frame_id buf f = bytes_of ''TYER'' \<or> frame_id buf f = bytes_of ''TDRC''"
    | (trck) "frame_id buf f = bytes_of ''TRCK''"
    | (tcon) "frame_id buf f = bytes_of ''TCON''"
    | (apic) "frame_id buf f = bytes_of ''APIC''"
    | (other) "frame_field (frame_id buf f) = None"
    by atomize_elim (auto simp: frame_field_def)
  then show ?thesis
  proof cases
    case tit2
    then have ff: "frame_field (frame_id buf f) = Some Title"
      by (simp add: frame_field_def)
    from pf tit2
    have "set_text (\<lambda>s. md\<lparr>title := s\<rparr>) (getTextFrameData buf t (Some f)) = Some (Inr md')"
      by (auto simp: bytes_of_def)
    from set_text_Inr [OF this]
    obtain s where "getTextFrameData buf t (Some f) = Some (Inr s)"
      and "md' = md\<lparr>title := s\<rparr>"
      by blast
    with ff show ?thesis
      by (simp add: decoded_text field_of_other)
  next
    case tpe1
    then have ff: "frame_field (frame_id buf f) = Some Artist"
      by (simp add: frame_field_def bytes_of_def)
    from pf tpe1
    have "set_text (\<lambda>s. md\<lparr>artist := s\<rparr>) (getTextFrameData buf t (Some f)) = Some (Inr md')"
      by (auto simp: bytes_of_def)
    from set_text_Inr [OF this]
    obtain s where "getTextFrameData buf t (Some f) = Some (Inr s)"
      and "md' = md\<lparr>artist := s\<rparr>"
      by blast
    with ff show ?thesis
      by (simp add: decoded_text field_of_other)
  next
    case talb
    then have ff: "frame_field (frame_id buf f) = Some Album"
      by (simp add: frame_field_def bytes_of_def)
    from pf talb
    have "set_text (\<lambda>s. md\<lparr>album := s\<rparr>) (getTextFrameData buf t (Some f)) = Some (Inr md')"
      by (auto simp: bytes_of_def)
    from set_text_Inr [OF this]
    obtain s where "getTextFrameData buf t (Some f) = Some (Inr s)"
      and "md' = md\<lparr>album := s\<rparr>"
      by blast
    with ff show ?thesis
      by (simp add: decoded_text field_of_other)
  next
    case year
    then have ff: "frame_field (frame_id buf f) = Some Year"
      by (auto simp: frame_field_def bytes_of_def)
    from pf year
    have "set_text (\<lambda>s. md\<lparr>year := s\<rparr>) (getTextFrameData buf t (Some f)) = Some (Inr md')"
      by (auto simp: bytes_of_def)
    from set_text_Inr [OF this]
    obtain s where "getTextFrameData buf t (Some f) = Some (Inr s)"
      and "md' = md\<lparr>year := s\<rparr>"
      by blast
    with ff show ?thesis
      by (simp add: decoded_text field_of_other)
  next
    case trck
    then have ff: "frame_field (frame_id buf f) = Some Track"
      by (simp add: frame_field_def bytes_of_def)
    from pf trck
    have "set_text (\<lambda>s. md\<lparr>track_num := s\<rparr>) (getTextFrameData buf t (Some f)) = Some (Inr md')"
      by (auto simp: bytes_of_def)
    from set_text_Inr [OF this]
    obtain s where "getTextFrameData buf t (Some f) = Some (Inr s)"
      and "md' = md\<lparr>track_num := s\<rparr>"
      by blast
    with ff show ?thesis
      by (simp add: decoded_text field_of_other)
  next
    case tcon
    then have ff: "frame_field (frame_id buf f) = Some Genre"
      by (simp add: frame_field_def bytes_of_def)
    from pf tcon
    have "set_text (\<lambda>s. md\<lparr>genre := s\<rparr>) (getTextFrameData buf t (Some f)) = Some (Inr md')"
      by (auto simp: bytes_of_def)
    from set_text_Inr [OF this]
    obtain s where "getTextFrameData buf t (Some f) = Some (Inr s)"
      and "md' = md\<lparr>genre := s\<rparr>"
      by blast
    with ff show ?thesis
      by (simp add: decoded_text field_of_other)
  next
    case apic
    then have ff: "frame_field (frame_id buf f) = Some Picture"
      by (simp add: frame_field_def bytes_of_def)
    from pf apic obtain mime isize idata
      where "getPictureFrameData buf t f = Some (Inr (mime, isize, idata))"
      and "md' = md\<lparr>mime_type := mime, image_size := Assigned isize,
                       image_data := Assigned idata\<rparr>"
      by (cases "getPictureFrameData buf t f"; cases "the (getPictureFrameData buf t f)")
         (auto simp: bytes_of_def)
    with ff show ?thesis
      by (simp add: decoded_def field_of_other)
  next
    case other
    then have "md' = md"
      using pf by (auto simp: frame_field_def split: if_splits)
    with other show ?thesis
      by simp
  qed
qed

lemma run_frames_append:
  "run_frames buf (xs @ ys) md =
     (case run_frames buf xs md of
        None \<Rightarrow> None
      | Some (Inl e) \<Rightarrow> Some (Inl e)
      | Some (Inr md') \<Rightarrow> run_frames buf ys md')"
  by (induction xs arbitrary: md) (auto split: option.splits sum.splits)

lemma process_frames_run:
  "process_frames buf tag tag_frames md = run_frames buf (map (Pair tag) tag_frames) md"
  by (induction tag_frames arbitrary: md) (auto split: option.splits sum.splits)

lemma process_tags_run:
  "process_tags buf tags md = Some (Inr md') \<Longrightarrow>
     \<exists>ps. scan_order buf tags = Some (Inr ps) \<and> run_frames buf ps md = Some (Inr md')"
proof (induction tags arbitrary: md)
  case Nil
  then show ?case by simp
next
  case (Cons tag tags)
  from Cons.prems obtain tag_frames m1
    where walk: "getID3v2TagFrames buf (Some tag) = Some (Inr tag_frames)"
      and inner: "process_frames buf tag tag_frames md = Some (Inr m1)"
      and rest: "process_tags buf tags m1 = Some (Inr md')"
    by (auto split: option.splits sum.splits)
  from Cons.IH [OF rest] obtain ps
    where ps: "scan_order buf tags = Some (Inr ps)" and run: "run_frames buf ps m1 = Some (Inr md')"
    by blast
  from inner run have "run_frames buf (map (Pair tag) tag_frames @ ps) md = Some (Inr md')"
    by (simp add: run_frames_append process_frames_run)
  with walk ps show ?case
    by simp
qed

lemma run_frames_keeps:
  "run_frames buf ps md = Some (Inr md') \<Longrightarrow>
   \<forall>(t, f)\<in>set ps. frame_field (frame_id buf f) \<noteq> Some fld \<Longrightarrow>
   field_of fld md' = field_of fld md"
proof (induction ps arbitrary: md)
  case Nil
  then show ?case by simp
next
  case (Cons p ps)
  obtain t f where p: "p = (t, f)"
    by (cases p)
  from Cons.prems(1) p obtain m1
    where step: "process_frame buf t f md = Some (Inr m1)"
      and rest: "run_frames buf ps m1 = Some (Inr md')"
    by (auto split: option.splits sum.splits)
  from Cons.prems(2) p have other: "frame_field (frame_id buf f) \<noteq> Some fld"
    and later: "\<forall>(t, f)\<in>set ps. frame_field (frame_id buf f) \<noteq> Some fld"
    by auto
  from process_frame_result [OF step] other have "field_of fld m1 = field_of fld md"
    by auto
  with Cons.IH [OF rest later] show ?case
    by simp
qed

lemma run_frames_last_write:
  assumes run: "run_frames buf (pre @ (t, f) # post) md = Some (Inr md')"
    and maps: "frame_field (frame_id buf f) = Some fld"
    and last: "\<forall>(t', f')\<in>set post. frame_field (frame_id buf f') \<noteq> Some fld"
  shows "decoded buf fld t f = Some (Inr (field_of fld md'))"
proof -
  from run obtain m1 m2
    where "run_frames buf pre md = Some (Inr m1)"
      and step: "process_frame buf t f m1 = Some (Inr m2)"
      and rest: "run_frames buf post m2 = Some (Inr md')"
    by (auto simp: run_frames_append split: option.splits sum.splits)
  from process_frame_result [OF step] maps
  have "decoded buf fld t f = Some (Inr (field_of fld m2))"
    by auto
  moreover from run_frames_keeps [OF rest last] have "field_of fld md' = field_of fld m2" .
  ultimately show ?thesis
    by simp
qed

text \<open>
  On a frame whose non-empty body lies inside the buffer both decoders return, and so does
  the assembler's loop body; on a well-formed buffer the assembler returns.
\<close>

lemma getTextFrameData_returns:
  assumes len: "length buf < 2 ^ 31"
    and size: "getFrameSize buf tag frame = Inr frame_size"
    and nonempty: "frame_size \<noteq> 0"
    and inside: "frame + 10 + unat frame_size \<le> length buf"
  shows "\<exists>s. getTextFrameData buf tag (Some frame) = Some (Inr s)"
proof -
  from nonempty have pos: "0 < unat frame_size" and u: "unat (frame_size - 1) = unat frame_size - 1"
    by (simp_all add: unat_gt_0 unat_minus_one)
  with inside have rd_enc: "rd buf (frame + 10) = Inr (buf ! (frame + 10))"
    by (simp add: rd_def)
  have payload: "frame + 10 + 1 + unat (frame_size - 1) \<le> length buf"
    using inside pos u by simp
  then have "\<exists>s. rd_n buf (frame + 10 + 1) (unat (frame_size - 1)) = Inr s"
    by (simp add: rd_n_def)
  moreover have "\<exists>s. utf16_loop buf (frame + 10 + 1) (frame_size - 1) 0 [] = Some (Inr s)"
    using utf16_loop_result [OF payload len, of 0 "[]"] by simp
  ultimately show ?thesis
    using size rd_enc
    by (auto simp: getTextFrameData_def getFrameData_def sizeof_ID3v2TagFrameHeader_def Let_def)
qed

lemma getPictureFrameData_returns:
  assumes size: "getFrameSize buf tag frame = Inr frame_size"
    and nonempty: "frame_size \<noteq> 0"
    and inside: "frame + 10 + unat frame_size \<le> length buf"
  shows "\<exists>picture. getPictureFrameData buf tag frame = Some (Inr picture)"
proof -
  let ?fd = "frame + 10"
  from nonempty have "0 < unat frame_size"
    by (simp add: unat_gt_0)
  with inside have enc: "rd buf ?fd = Inr (buf ! ?fd)"
    by (simp add: rd_def)
  from inside obtain m dp1 where scan: "scan_until_null buf ?fd frame_size 1 [] = Inr (m, dp1)"
    using scan_until_null_returns [of ?fd frame_size buf 1 "[]"] by auto
  obtain dp where "skip_info buf ?fd frame_size (buf ! ?fd) (dp1 + 1 + 1) = Some (Inr dp)"
    using skip_info_returns [OF inside nonempty] by blast
  with size enc scan show ?thesis
    by (simp add: getPictureFrameData_def getFrameData_def sizeof_ID3v2TagFrameHeader_def Let_def)
qed

lemma process_frame_returns:
  assumes len: "length buf < 2 ^ 31"
    and size: "getFrameSize buf tag frame = Inr frame_size"
    and nonempty: "frame_size \<noteq> 0"
    and inside: "frame + 10 + unat frame_size \<le> length buf"
  shows "\<exists>md'. process_frame buf tag frame md = Some (Inr md')"
proof -
  from inside have rd: "rd_n buf frame 4 = Inr (frame_id buf frame)"
    by (simp add: rd_n_def frame_id_def)
  obtain s where text_result: "getTextFrameData buf tag (Some frame) = Some (Inr s)"
    using getTextFrameData_returns [OF assms] by blast
  obtain picture where pic: "getPictureFrameData buf tag frame = Some (Inr picture)"
    using getPictureFrameData_returns [OF size nonempty inside] by blast
  show ?thesis
    by (simp add: process_frame_def rd text_result pic set_text_def)
qed

lemma process_frames_returns:
  assumes len: "length buf < 2 ^ 31" and tagin: "tag + 10 \<le> length buf"
  shows "list_all (\<lambda>frame. 0 < frame_size_at buf tag frame
                     \<and> frame + 10 + frame_size_at buf tag frame \<le> length buf) frames \<Longrightarrow>
     \<exists>md'. process_frames buf tag frames md = Some (Inr md')"
proof (induction frames arbitrary: md)
  case Nil
  then show ?case by simp
next
  case (Cons frame frames)
  then have pos: "0 < frame_size_at buf tag frame"
    and inside: "frame + 10 + frame_size_at buf tag frame \<le> length buf"
    and rest: "list_all (\<lambda>frame. 0 < frame_size_at buf tag frame
                     \<and> frame + 10 + frame_size_at buf tag frame \<le> length buf) frames"
    by simp_all
  from inside obtain frame_size where size: "getFrameSize buf tag frame = Inr frame_size"
    using getFrameSize_inside [OF tagin, of frame] by auto
  with pos inside have "frame_size \<noteq> 0" and "frame + 10 + unat frame_size \<le> length buf"
    by (auto simp: frame_size_at_def)
  from process_frame_returns [OF len size this] obtain m1
    where "process_frame buf tag frame md = Some (Inr m1)"
    by blast
  with Cons.IH [OF rest, of m1] show ?case
    by simp
qed

lemma process_tags_returns:
  assumes len: "length buf < 2 ^ 31"
  shows "list_all (\<lambda>tag. tag + 10 \<le> length buf \<and> frames_inside buf tag) tags \<Longrightarrow>
     (\<exists>md'. process_tags buf tags md = Some (Inr md'))
     \<and> scan_order buf tags
         = Some (Inr (concat (map (\<lambda>tag. map (Pair tag) (spec_frames buf tag)) tags)))"
proof (induction tags arbitrary: md)
  case Nil
  then show ?case by simp
next
  case (Cons tag tags)
  then have tagin: "tag + 10 \<le> length buf" and inside: "frames_inside buf tag"
    and rest: "list_all (\<lambda>tag. tag + 10 \<le> length buf \<and> frames_inside buf tag) tags"
    by simp_all
  note walk = getID3v2TagFrames_spec_frames [OF len tagin inside]
  from inside obtain m1 where "process_frames buf tag (spec_frames buf tag) md = Some (Inr m1)"
    using process_frames_returns [OF len tagin, of "spec_frames buf tag" md]
    by (auto simp: frames_inside_def)
  with walk Cons.IH [OF rest, of m1] show ?case
    by simp
qed

lemma located_inside: "tag \<in> set (located buf) \<Longrightarrow> tag + 10 \<le> length buf"
  by (auto simp: located_def)

lemma getMetadata_returns:
  assumes "well_formed buf"
  shows "(\<exists>md. getMetadata buf = Some (Inr md))
     \<and> getID3v2Tags buf = Inr (located buf)
     \<and> scan_order buf (located buf)
         = Some (Inr (concat (map (\<lambda>tag. map (Pair tag) (spec_frames buf tag)) (located buf))))"
proof -
  from assms have long: "10 \<le> length buf" and len: "length buf < 2 ^ 31"
    and frames: "list_all (frames_inside buf) (located buf)"
    by (simp_all add: well_formed_def)
  have tags: "getID3v2Tags buf = Inr (located buf)"
    using getID3v2Tags_long [OF long len] by (simp add: located_def)
  from frames have "list_all (\<lambda>tag. tag + 10 \<le> length buf \<and> frames_inside buf tag) (located buf)"
    by (auto simp: list_all_iff dest: located_inside)
  from process_tags_returns [OF len this, of new_MP3_Metadata] tags show ?thesis
    by (simp add: getMetadata_def)
qed

lemma getMetadata_scan_fold:
  assumes "getMetadata buf = Some (Inr md)"
  shows "\<exists>tags ps.
     getID3v2Tags buf = Inr tags \<and> sorted_wrt (<) tags
     \<and> scan_order buf tags = Some (Inr ps)
     \<and> run_frames buf ps new_MP3_Metadata = Some (Inr md)
     \<and> (\<forall>pre tag frame post fld.
           ps = pre @ (tag, frame) # post
           \<and> frame_field (frame_id buf frame) = Some fld
           \<and> (\<forall>(tag', frame')\<in>set post. frame_field (frame_id buf frame') \<noteq> Some fld)
           \<longrightarrow> decoded buf fld tag frame = Some (Inr (field_of fld md)))"
proof -
  from assms obtain tags where tags: "getID3v2Tags buf = Inr tags"
    and run: "process_tags buf tags new_MP3_Metadata = Some (Inr md)"
    by (auto simp: getMetadata_def split: sum.splits)
  from process_tags_run [OF run] obtain ps
    where ps: "scan_order buf tags = Some (Inr ps)"
      and frames: "run_frames buf ps new_MP3_Metadata = Some (Inr md)"
    by blast
  have "decoded buf fld tag frame = Some (Inr (field_of fld md))"
    if "ps = pre @ (tag, frame) # post"
      and "frame_field (frame_id buf frame) = Some fld"
      and "\<forall>(tag', frame')\<in>set post. frame_field (frame_id buf frame') \<noteq> Some fld"
    for pre tag frame post fld
    using run_frames_last_write [of buf pre tag frame post new_MP3_Metadata md fld] frames that
    by simp
  with tags ps frames getID3v2Tags_sorted [OF tags] show ?thesis
    by blast
qed

text \<open>
  C3: on every well-formed buffer \<open>extractMetadata\<close> returns a record, the tags it
  processes are the located tags in ascending buffer-offset order, and under each tag the
  frames are those of the walk, in walk order. Whenever it returns a record, it has
  processed the frames in this scan order, and for every field of the record (title,
  artist, album, year, track, genre, picture) and every processed frame that maps to this
  field with no later processed frame mapping to it, the record holds the value decoded
  from that frame, also when the frames lie in different tags.
\<close>

theorem getMetadata_scan_order_last_write:
  "(well_formed buf \<longrightarrow>
      (\<exists>md. getMetadata buf = Some (Inr md))
      \<and> getID3v2Tags buf = Inr (located buf)
      \<and> scan_order buf (located buf)
          = Some (Inr (concat (map (\<lambda>tag. map (Pair tag) (spec_frames buf tag)) (located buf)))))
   \<and> (\<forall>md. getMetadata buf = Some (Inr md) \<longrightarrow>
        (\<exists>tags ps.
           getID3v2Tags buf = Inr tags \<and> sorted_wrt (<) tags
           \<and> scan_order buf tags = Some (Inr ps)
           \<and> run_frames buf ps new_MP3_Metadata = Some (Inr md)
           \<and> (\<forall>pre tag frame post fld.
                 ps = pre @ (tag, frame) # post
                 \<and> frame_field (frame_id buf frame) = Some fld
                 \<and> (\<forall>(tag', frame')\<in>set post. frame_field (frame_id buf frame') \<noteq> Some fld)
                 \<longrightarrow> decoded buf fld tag frame = Some (Inr (field_of fld md)))))"
  using getMetadata_returns [of buf] getMetadata_scan_fold [of buf] by blast

lemma seven_fields_located: "located seven_fields = [0, 74]"
  by (simp add: located_def seven_fields_def bytes_of_def upt_rec)

lemma seven_fields_spec_frames:
  "spec_frames seven_fields 0 = [10, 22, 34, 46, 58]
   \<and> spec_frames seven_fields 74 = [84, 96, 108, 120, 132]"
  by (simp add: spec_frames_def tag_limit_def frame_size_at_def walk_frames.simps sample_simps
      seven_fields_def)

lemma seven_fields_well_formed: "well_formed seven_fields"
  using seven_fields_located seven_fields_spec_frames
  by (simp add: well_formed_def frames_inside_def frame_size_at_def sample_simps seven_fields_def)

lemma seven_fields_result: "getMetadata seven_fields = Some (Inr seven_fields_metadata)"
  by (simp add: sample_simps seven_fields_def seven_fields_metadata_def)

lemma seven_fields_ids:
  "frame_field (frame_id seven_fields 10) = Some Title"
  "frame_field (frame_id seven_fields 22) = Some Artist"
  "frame_field (frame_id seven_fields 34) = Some Album"
  "frame_field (frame_id seven_fields 46) = Some Year"
  "frame_field (frame_id seven_fields 58) = Some Picture"
  "frame_field (frame_id seven_fields 84) = Some Title"
  "frame_field (frame_id seven_fields 96) = Some Track"
  "frame_field (frame_id seven_fields 108) = Some Genre"
  "frame_field (frame_id seven_fields 120) = Some Year"
  "frame_field (frame_id seven_fields 132) = Some Picture"
  by (simp_all add: frame_id_def frame_field_def seven_fields_def bytes_of_def)

theorem getMetadata_scan_order_last_write_witness:
  "well_formed seven_fields
   \<and> getMetadata seven_fields = Some (Inr seven_fields_metadata)
   \<and> getID3v2Tags seven_fields = Inr [0, 74]
   \<and> scan_order seven_fields [0, 74]
       = Some (Inr [(0, 10), (0, 22), (0, 34), (0, 46), (0, 58),
                    (74, 84), (74, 96), (74, 108), (74, 120), (74, 132)])
   \<and> decoded seven_fields Title 74 84 = Some (Inr (Text [0x42]))
   \<and> decoded seven_fields Artist 0 22 = Some (Inr (Text [0x61]))
   \<and> decoded seven_fields Album 0 34 = Some (Inr (Text [0x62]))
   \<and> decoded seven_fields Year 74 120 = Some (Inr (Text [0x32]))
   \<and> decoded seven_fields Track 74 96 = Some (Inr (Text [0x37]))
   \<and> decoded seven_fields Genre 74 108 = Some (Inr (Text [0x67]))
   \<and> decoded seven_fields Picture 74 132 = Some (Inr (Image [0x70] (Assigned 1) (Assigned 147)))"
proof -
  note claim = getMetadata_scan_order_last_write [of seven_fields]
  from claim seven_fields_well_formed
  have tags: "getID3v2Tags seven_fields = Inr [0, 74]"
    and order: "scan_order seven_fields [0, 74]
       = Some (Inr [(0, 10), (0, 22), (0, 34), (0, 46), (0, 58),
                    (74, 84), (74, 96), (74, 108), (74, 120), (74, 132)])"
    by (simp_all add: seven_fields_located seven_fields_spec_frames)
  from claim seven_fields_result tags order
  have last: "decoded seven_fields fld tag frame = Some (Inr (field_of fld seven_fields_metadata))"
    if "[(0, 10), (0, 22), (0, 34), (0, 46), (0, 58),
         (74, 84), (74, 96), (74, 108), (74, 120), (74, 132)] = pre @ (tag, frame) # post"
      and "frame_field (frame_id seven_fields frame) = Some fld"
      and "\<forall>(tag', frame')\<in>set post. frame_field (frame_id seven_fields frame') \<noteq> Some fld"
    for pre tag frame post fld
    using that by (auto simp del: append_eq_Cons_conv Cons_eq_append_conv)
  have "decoded seven_fields Title 74 84 = Some (Inr (field_of Title seven_fields_metadata))"
    by (rule last [of "[(0, 10), (0, 22), (0, 34), (0, 46), (0, 58)]" _ _
          "[(74, 96), (74, 108), (74, 120), (74, 132)]"])
       (simp_all add: seven_fields_ids)
  moreover
  have "decoded seven_fields Artist 0 22 = Some (Inr (field_of Artist seven_fields_metadata))"
    by (rule last [of "[(0, 10)]" _ _
          "[(0, 34), (0, 46), (0, 58), (74, 84), (74, 96), (74, 108), (74, 120), (74, 132)]"])
       (simp_all add: seven_fields_ids)
  moreover
  have "decoded seven_fields Album 0 34 = Some (Inr (field_of Album seven_fields_metadata))"
    by (rule last [of "[(0, 10), (0, 22)]" _ _
          "[(0, 46), (0, 58), (74, 84), (74, 96), (74, 108), (74, 120), (74, 132)]"])
       (simp_all add: seven_fields_ids)
  moreover
  have "decoded seven_fields Year 74 120 = Some (Inr (field_of Year seven_fields_metadata))"
    by (rule last [of "[(0, 10), (0, 22), (0, 34), (0, 46), (0, 58), (74, 84), (74, 96), (74, 108)]"
          _ _ "[(74, 132)]"])
       (simp_all add: seven_fields_ids)
  moreover
  have "decoded seven_fields Track 74 96 = Some (Inr (field_of Track seven_fields_metadata))"
    by (rule last [of "[(0, 10), (0, 22), (0, 34), (0, 46), (0, 58), (74, 84)]" _ _
          "[(74, 108), (74, 120), (74, 132)]"])
       (simp_all add: seven_fields_ids)
  moreover
  have "decoded seven_fields Genre 74 108 = Some (Inr (field_of Genre seven_fields_metadata))"
    by (rule last [of "[(0, 10), (0, 22), (0, 34), (0, 46), (0, 58), (74, 84), (74, 96)]" _ _
          "[(74, 120), (74, 132)]"])
       (simp_all add: seven_fields_ids)
  moreover
  have "decoded seven_fields Picture 74 132 = Some (Inr (field_of Picture seven_fields_metadata))"
    by (rule last [of "[(0, 10), (0, 22), (0, 34), (0, 46), (0, 58), (74, 84), (74, 96), (74, 108),
          (74, 120)]" _ _ "[]"])
       (simp_all add: seven_fields_ids)
  ultimately show ?thesis
    using seven_fields_well_formed seven_fields_result tags order
    by (simp add: seven_fields_metadata_def)
qed

end
